theory Spec2Isabelle
  imports Main
begin

section \<open>The hashy step table (hashy_step_table.py)\<close>

subsection \<open>Data model\<close>

text \<open>
  A key is a Python \<open>str\<close>. It is modelled as the list of the code points of its
  characters, so that \<open>ord(char)\<close> is the list element itself and the model covers
  every Unicode string. The key \<open>"a"\<close> is \<open>[97]\<close>, \<open>"A"\<close> is \<open>[65]\<close>.
\<close>

type_synonym pystr = "nat list"
type_synonym key = pystr

datatype error =
  KeyError key | FullError | IndexError | ZeroDivisionError | TypeError | ValueError

text \<open>
  A cell of the array holds \<open>None\<close> (\<open>Empty\<close>), the object \<open>SENTINEL_DELETED\<close>
  (\<open>Tombstone\<close>) or a tuple \<open>(key, value)\<close> (\<open>Occupied\<close>).
\<close>

datatype 'v slot = Empty | Tombstone | Occupied key 'v

text \<open>
  The instance attributes: \<open>self.TABLE_SIZES\<close> (field \<open>sizes\<close>), \<open>self.size_index\<close>,
  \<open>self.array\<close> and \<open>self.count\<close>. The counter is a Python int and is decremented by
  \<open>__delitem__\<close> without a lower bound, so it is an \<open>int\<close>.
\<close>

record 'v table =
  sizes :: "nat list"
  size_index :: nat
  array :: "'v slot list"
  count :: int

definition TABLE_SIZES :: "nat list" where
  "TABLE_SIZES = [5, 13, 29, 53, 97, 193, 389, 769, 1543, 3079, 6151, 12289, 24593, 49157,
     98317, 196613, 393241, 786433, 1572869]"

definition HASH_BASE :: nat where
  "HASH_BASE = 31"

text \<open>
  Modelled from the spec: \<open>ArrayR\<close> (data_structures.referential_array) is imported by the
  source and is not part of it. The spec describes it as the owned array of slots of fixed
  length = current capacity, every slot \<open>Empty\<close> when it is created; the ladder's entries are
  positive integers. Reading a cell beyond the length raises \<open>IndexError\<close>.
\<close>

definition ArrayR :: "nat \<Rightarrow> 'v slot list" where
  "ArrayR n = replicate n Empty"

text \<open>\<open>__init__\<close>: \<open>self.TABLE_SIZES[0]\<close> raises \<open>IndexError\<close> on an empty ladder.\<close>

definition init :: "nat list option \<Rightarrow> error + 'v table" where
  "init szs =
     (let ts = (case szs of None \<Rightarrow> TABLE_SIZES | Some s \<Rightarrow> s)
      in if ts = [] then Inl IndexError
         else Inr \<lparr>sizes = ts, size_index = 0, array = ArrayR (ts ! 0), count = 0\<rparr>)"

definition table_size :: "'v table \<Rightarrow> nat" where
  "table_size t = length (array t)"

text \<open>
  \<open>__len__\<close> returns the counter. The builtin \<open>len(self)\<close>, which \<open>__setitem__\<close>
  calls, raises \<open>ValueError\<close> when \<open>__len__\<close> returns a negative number.
\<close>

definition dunder_len :: "'v table \<Rightarrow> int" where
  "dunder_len t = count t"

definition len :: "'v table \<Rightarrow> error + int" where
  "len t = (if dunder_len t < 0 then Inl ValueError else Inr (dunder_len t))"

definition is_empty :: "'v table \<Rightarrow> bool" where
  "is_empty t = (count t = 0)"

definition is_full :: "'v table \<Rightarrow> bool" where
  "is_full t = (count t = int (table_size t))"

subsection \<open>Hash engine\<close>

text \<open>
  \<open>hash\<close>: the loop body is \<open>value = (ord(char) + a * value) % table_size\<close> followed by
  \<open>a = a * HASH_BASE % (table_size - 1)\<close>. Python's \<open>%\<close> raises \<open>ZeroDivisionError\<close>
  on a zero modulus: the first statement at \<open>table_size = 0\<close>, the second at
  \<open>table_size = 1\<close>. All operands are non-negative, so \<open>%\<close> is \<open>mod\<close> on \<open>nat\<close>.
\<close>

fun hash_loop :: "nat \<Rightarrow> key \<Rightarrow> nat \<Rightarrow> nat \<Rightarrow> error + nat" where
  "hash_loop m [] value a = Inr value"
| "hash_loop m (char # rest) value a =
     (if m = 0 then Inl ZeroDivisionError
      else if m = 1 then Inl ZeroDivisionError
      else hash_loop m rest ((char + a * value) mod m) (a * HASH_BASE mod (m - 1)))"

definition hash :: "'v table \<Rightarrow> key \<Rightarrow> error + nat" where
  "hash t key = hash_loop (table_size t) key 0 31415"

text \<open>
  \<open>hash2\<close>: both statements reduce modulo \<open>table_size - 1\<close>, and the result is
  \<open>value + 1\<close>. At \<open>table_size = 0\<close> the modulus is \<open>-1\<close> in Python, and \<open>x % -1\<close> is
  \<open>0\<close> for every integer \<open>x\<close>.
\<close>

fun hash2_loop :: "nat \<Rightarrow> key \<Rightarrow> nat \<Rightarrow> nat \<Rightarrow> error + nat" where
  "hash2_loop m [] value a = Inr value"
| "hash2_loop m (char # rest) value a =
     (if m = 1 then Inl ZeroDivisionError
      else if m = 0 then hash2_loop m rest 0 0
      else hash2_loop m rest ((char + a * value) mod (m - 1)) (a * HASH_BASE mod (m - 1)))"

definition hash2 :: "'v table \<Rightarrow> key \<Rightarrow> error + nat" where
  "hash2 t key =
     (case hash2_loop (table_size t) key 0 31415 of
        Inl e \<Rightarrow> Inl e
      | Inr value \<Rightarrow> Inr (value + 1))"

subsection \<open>Probe sequence (\<open>_hashy_probe\<close>)\<close>

text \<open>
  The local variables \<open>step\<close> and \<open>first_empty_index\<close> start as \<open>None\<close> and are tested
  by truth value: \<open>not x\<close> holds for \<open>None\<close> and for the integer \<open>0\<close>.
\<close>

fun falsy :: "nat option \<Rightarrow> bool" where
  "falsy None = True"
| "falsy (Some n) = (n = 0)"

text \<open>\<open>if not step: step = self.hash2(key)\<close>, giving the step in use afterwards.\<close>

fun lazy_step :: "'v table \<Rightarrow> key \<Rightarrow> nat option \<Rightarrow> error + nat" where
  "lazy_step t key None = hash2 t key"
| "lazy_step t key (Some s) = (if s = 0 then hash2 t key else Inr s)"

text \<open>
  The \<open>while True\<close> loop. It has no bound of its own, so the model counts loop iterations
  with fuel: \<open>None\<close> means that the fuel ran out before the loop left. An exception leaves
  the loop with \<open>Inl\<close>; the table is returned in both cases, since a successful lookup may
  have swapped two cells.
\<close>

fun probe_loop ::
  "nat \<Rightarrow> 'v table \<Rightarrow> key \<Rightarrow> bool \<Rightarrow> nat \<Rightarrow> nat option \<Rightarrow> nat option \<Rightarrow>
     ((error + nat) \<times> 'v table) option" where
  "probe_loop 0 t key is_insert position step first_empty_index = None"
| "probe_loop (Suc fuel) t key is_insert position step first_empty_index =
     (if is_full t then
        Some (Inl (if is_insert then FullError else KeyError key), t)
      else if table_size t \<le> position then Some (Inl IndexError, t)
      else
        (case array t ! position of
           Empty \<Rightarrow>
             if is_insert then Some (Inr position, t)
             else Some (Inl (KeyError key), t)
         | Tombstone \<Rightarrow>
             if is_insert then Some (Inr position, t)
             else
               (let first_empty_index' =
                      (if falsy first_empty_index then Some position else first_empty_index)
                in case lazy_step t key step of
                     Inl e \<Rightarrow> Some (Inl e, t)
                   | Inr s \<Rightarrow>
                       probe_loop fuel t key is_insert ((position + s) mod table_size t)
                         (Some s) first_empty_index')
         | Occupied k v \<Rightarrow>
             if k = key then
               (case first_empty_index of
                  None \<Rightarrow> Some (Inr position, t)
                | Some i \<Rightarrow>
                    if i = 0 then Some (Inr position, t)
                    else
                      Some (Inr i,
                        t\<lparr>array := (array t)[i := array t ! position, position := array t ! i]\<rparr>))
             else
               (case lazy_step t key step of
                  Inl e \<Rightarrow> Some (Inl e, t)
                | Inr s \<Rightarrow>
                    probe_loop fuel t key is_insert ((position + s) mod table_size t)
                      (Some s) first_empty_index)))"

definition hashy_probe ::
  "nat \<Rightarrow> 'v table \<Rightarrow> key \<Rightarrow> bool \<Rightarrow> ((error + nat) \<times> 'v table) option" where
  "hashy_probe fuel t key is_insert =
     (case hash t key of
        Inl e \<Rightarrow> Some (Inl e, t)
      | Inr position \<Rightarrow> probe_loop fuel t key is_insert position None None)"

subsection \<open>Slot store: get, set, delete, contains\<close>

text \<open>
  \<open>__getitem__\<close>: \<open>self.array[position][1]\<close>; subscripting \<open>None\<close> or the sentinel
  would raise \<open>TypeError\<close>.
\<close>

definition getitem :: "nat \<Rightarrow> 'v table \<Rightarrow> key \<Rightarrow> ((error + 'v) \<times> 'v table) option" where
  "getitem fuel t key =
     (case hashy_probe fuel t key False of
        None \<Rightarrow> None
      | Some (Inl e, t') \<Rightarrow> Some (Inl e, t')
      | Some (Inr position, t') \<Rightarrow>
          (case array t' ! position of
             Occupied k v \<Rightarrow> Some (Inr v, t')
           | _ \<Rightarrow> Some (Inl TypeError, t')))"

text \<open>\<open>__contains__\<close>: only \<open>KeyError\<close> is caught.\<close>

definition contains :: "nat \<Rightarrow> 'v table \<Rightarrow> key \<Rightarrow> ((error + bool) \<times> 'v table) option" where
  "contains fuel t key =
     (case getitem fuel t key of
        None \<Rightarrow> None
      | Some (Inl (KeyError k), t') \<Rightarrow> Some (Inr False, t')
      | Some (Inl e, t') \<Rightarrow> Some (Inl e, t')
      | Some (Inr v, t') \<Rightarrow> Some (Inr True, t'))"

definition delitem :: "nat \<Rightarrow> 'v table \<Rightarrow> key \<Rightarrow> ((error + unit) \<times> 'v table) option" where
  "delitem fuel t key =
     (case hashy_probe fuel t key False of
        None \<Rightarrow> None
      | Some (Inl e, t') \<Rightarrow> Some (Inl e, t')
      | Some (Inr position, t') \<Rightarrow>
          Some (Inr (),
            t'\<lparr>array := (array t')[position := Tombstone], count := count t' - 1\<rparr>))"

text \<open>
  \<open>__setitem__\<close> and \<open>_rehash\<close> call each other. The counter is incremented under the
  condition \<open>self.array[position] is None and self.array[position] != SENTINEL_DELETED\<close>,
  which holds exactly for an \<open>Empty\<close> cell. The test \<open>len(self) > self.table_size * 2 / 3\<close>
  compares an int with the float quotient; it is \<open>3 * count > 2 * table_size\<close>. It
  comes after the write, so a \<open>ValueError\<close> of \<open>len(self)\<close> leaves the pair stored.

  \<open>_rehash\<close> increments \<open>size_index\<close> first, returns when it equals the length of the
  ladder, and otherwise reads \<open>self.TABLE_SIZES[self.size_index]\<close>, which raises
  \<open>IndexError\<close> beyond the ladder. The \<open>for\<close> loop walks the old array and stops at
  the first exception. The fuel bounds the nesting of \<open>_rehash\<close> and is handed to every probe.
\<close>

fun setitem :: "nat \<Rightarrow> 'v table \<Rightarrow> key \<Rightarrow> 'v \<Rightarrow> ((error + unit) \<times> 'v table) option"
  and rehash :: "nat \<Rightarrow> 'v table \<Rightarrow> ((error + unit) \<times> 'v table) option"
  and rehash_loop :: "nat \<Rightarrow> 'v slot list \<Rightarrow> 'v table \<Rightarrow> ((error + unit) \<times> 'v table) option"
  where
  "setitem fuel t key data =
     (case hashy_probe fuel t key True of
        None \<Rightarrow> None
      | Some (Inl e, t1) \<Rightarrow> Some (Inl e, t1)
      | Some (Inr position, t1) \<Rightarrow>
          (let t2 = (if array t1 ! position = Empty then t1\<lparr>count := count t1 + 1\<rparr> else t1);
               t3 = t2\<lparr>array := (array t2)[position := Occupied key data]\<rparr>
           in case len t3 of
                Inl e \<Rightarrow> Some (Inl e, t3)
              | Inr n \<Rightarrow>
                  if 3 * n > 2 * int (table_size t3) then rehash fuel t3
                  else Some (Inr (), t3)))"
| "rehash 0 t = None"
| "rehash (Suc fuel) t =
     (let old_array = array t;
          t1 = t\<lparr>size_index := size_index t + 1\<rparr>
      in if size_index t1 = length (sizes t1) then Some (Inr (), t1)
         else if length (sizes t1) \<le> size_index t1 then Some (Inl IndexError, t1)
         else rehash_loop fuel old_array
                (t1\<lparr>array := ArrayR (sizes t1 ! size_index t1), count := 0\<rparr>))"
| "rehash_loop fuel [] t = Some (Inr (), t)"
| "rehash_loop fuel (item # items) t =
     (case item of
        Occupied key value \<Rightarrow>
          (case setitem fuel t key value of
             None \<Rightarrow> None
           | Some (Inl e, t') \<Rightarrow> Some (Inl e, t')
           | Some (Inr u, t') \<Rightarrow> rehash_loop fuel items t')
      | _ \<Rightarrow> rehash_loop fuel items t)"

subsection \<open>Rendering (\<open>__str__\<close>)\<close>

text \<open>
  \<open>__str__\<close> skips \<open>None\<close> cells only and unpacks every other cell as \<open>(key, value)\<close>;
  unpacking the sentinel object raises \<open>TypeError\<close>. \<open>str(key)\<close> is the key itself;
  \<open>str(value)\<close> is a parameter. The code points 40, 44, 41 and 10 are the characters
  \<open>(\<close>, \<open>,\<close>, \<open>)\<close> and the newline.
\<close>

fun str_loop :: "('v \<Rightarrow> pystr) \<Rightarrow> 'v slot list \<Rightarrow> pystr \<Rightarrow> error + pystr" where
  "str_loop str_value [] result = Inr result"
| "str_loop str_value (item # items) result =
     (case item of
        Empty \<Rightarrow> str_loop str_value items result
      | Tombstone \<Rightarrow> Inl TypeError
      | Occupied key value \<Rightarrow>
          str_loop str_value items (result @ [40] @ key @ [44] @ str_value value @ [41, 10]))"

definition str :: "('v \<Rightarrow> pystr) \<Rightarrow> 'v table \<Rightarrow> error + pystr" where
  "str str_value t = str_loop str_value (array t) []"


subsection \<open>Enumeration (\<open>keys\<close>, \<open>values\<close>)\<close>

text \<open>
  \<open>keys()\<close> and \<open>values()\<close> (here \<open>values_t\<close>) scan the array in index order and
  keep the cells that are neither \<open>None\<close> nor the sentinel.
\<close>

fun keys_of :: "'v slot list \<Rightarrow> key list" where
  "keys_of [] = []"
| "keys_of (Empty # xs) = keys_of xs"
| "keys_of (Tombstone # xs) = keys_of xs"
| "keys_of (Occupied k v # xs) = k # keys_of xs"

definition keys :: "'v table \<Rightarrow> key list" where
  "keys t = keys_of (array t)"

fun values_of :: "'v slot list \<Rightarrow> 'v list" where
  "values_of [] = []"
| "values_of (Empty # xs) = values_of xs"
| "values_of (Tombstone # xs) = values_of xs"
| "values_of (Occupied k v # xs) = v # values_of xs"

definition values_t :: "'v table \<Rightarrow> 'v list" where
  "values_t t = values_of (array t)"

subsection \<open>Sequences of operations\<close>

text \<open>
  A client calls the four operations one after another and may catch an exception and go
  on; the table keeps whatever the failed call had already written. \<open>run\<close> applies a list
  of calls and collects what each call returned or raised; \<open>script\<close> does so on a newly
  constructed table.
\<close>

datatype 'v op = Set key 'v | Get key | Delete key | Contains key

datatype 'v reply = Done | Value 'v | Truth bool

definition reply_of ::
  "('a \<Rightarrow> 'v reply) \<Rightarrow> ((error + 'a) \<times> 'v table) option \<Rightarrow>
     ((error + 'v reply) \<times> 'v table) option" where
  "reply_of f r =
     (case r of
        None \<Rightarrow> None
      | Some (Inl e, t) \<Rightarrow> Some (Inl e, t)
      | Some (Inr x, t) \<Rightarrow> Some (Inr (f x), t))"

fun apply_op :: "nat \<Rightarrow> 'v table \<Rightarrow> 'v op \<Rightarrow> ((error + 'v reply) \<times> 'v table) option" where
  "apply_op fuel t (Set k v) = reply_of (\<lambda>u. Done) (setitem fuel t k v)"
| "apply_op fuel t (Get k) = reply_of Value (getitem fuel t k)"
| "apply_op fuel t (Delete k) = reply_of (\<lambda>u. Done) (delitem fuel t k)"
| "apply_op fuel t (Contains k) = reply_of Truth (contains fuel t k)"

fun run ::
  "nat \<Rightarrow> 'v table \<Rightarrow> 'v op list \<Rightarrow> ((error + 'v reply) list \<times> 'v table) option" where
  "run fuel t [] = Some ([], t)"
| "run fuel t (x # xs) =
     (case apply_op fuel t x of
        None \<Rightarrow> None
      | Some (r, t') \<Rightarrow>
          (case run fuel t' xs of
             None \<Rightarrow> None
           | Some (rs, t'') \<Rightarrow> Some (r # rs, t'')))"

definition script ::
  "nat \<Rightarrow> nat list option \<Rightarrow> 'v op list \<Rightarrow> ((error + 'v reply) list \<times> 'v table) option" where
  "script fuel szs ops = (case init szs of Inl e \<Rightarrow> None | Inr t \<Rightarrow> run fuel t ops)"

text \<open>The number of \<open>Occupied\<close> cells, and the cells that hold a given key.\<close>

fun is_occupied :: "'v slot \<Rightarrow> bool" where
  "is_occupied (Occupied k v) = True"
| "is_occupied _ = False"

definition occupied_slots :: "'v table \<Rightarrow> nat" where
  "occupied_slots t = length (filter is_occupied (array t))"

fun holds_key :: "key \<Rightarrow> 'v slot \<Rightarrow> bool" where
  "holds_key key (Occupied k v) = (k = key)"
| "holds_key key _ = False"

definition positions_of :: "'v table \<Rightarrow> key \<Rightarrow> nat list" where
  "positions_of t key = filter (\<lambda>i. holds_key key (array t ! i)) [0..<table_size t]"

definition sets :: "(key \<times> 'v) list \<Rightarrow> 'v op list" where
  "sets kvs = map (\<lambda>(k, v). Set k v) kvs"

subsection \<open>Notions for the round trip\<close>

text \<open>
  The cells a probe visits: it starts at \<open>h\<close> and advances by \<open>s\<close> modulo the capacity
  \<open>m\<close>, so the \<open>j\<close>-th cell is \<open>walk m h s j\<close>. For a table of capacity at least \<open>2\<close>
  the start is \<open>home m key\<close>, the value of \<open>hash\<close>, and the step is \<open>stride m key\<close>,
  the value of \<open>hash2\<close>. A capacity is \<open>good\<close> when every step in \<open>[1, m - 1]\<close> is coprime
  to it, as for a prime.
\<close>

definition walk :: "nat \<Rightarrow> nat \<Rightarrow> nat \<Rightarrow> nat \<Rightarrow> nat" where
  "walk m h s j = (h + j * s) mod m"

definition good :: "nat \<Rightarrow> bool" where
  "good m = (\<forall>s. 1 \<le> s \<and> s < m \<longrightarrow> coprime s m)"

definition home :: "nat \<Rightarrow> key \<Rightarrow> nat" where
  "home m key = (case hash_loop m key 0 31415 of Inl e \<Rightarrow> 0 | Inr h \<Rightarrow> h)"

definition stride :: "nat \<Rightarrow> key \<Rightarrow> nat" where
  "stride m key = (case hash2_loop m key 0 31415 of Inl e \<Rightarrow> 0 | Inr value \<Rightarrow> value + 1)"

definition other_key :: "key \<Rightarrow> 'v slot \<Rightarrow> bool" where
  "other_key key c = (case c of Occupied k v \<Rightarrow> k \<noteq> key | _ \<Rightarrow> False)"

text \<open>The pairs stored in a table.\<close>

definition entries_of :: "'v slot list \<Rightarrow> (key \<times> 'v) set" where
  "entries_of xs = {(k, v). Occupied k v \<in> set xs}"

definition entries :: "'v table \<Rightarrow> (key \<times> 'v) set" where
  "entries t = entries_of (array t)"

text \<open>
  A table that has seen no \<open>delete\<close>: no tombstone, the counter is the number of
  \<open>Occupied\<close> cells, and every stored key is reached by its own walk through cells that
  other keys occupy.
\<close>

definition reaches :: "'v table \<Rightarrow> key \<Rightarrow> nat \<Rightarrow> bool" where
  "reaches t key i =
     (\<exists>j<table_size t.
        walk (table_size t) (home (table_size t) key) (stride (table_size t) key) j = i \<and>
        (\<forall>j'<j. other_key key
           (array t ! walk (table_size t) (home (table_size t) key)
              (stride (table_size t) key) j')))"

definition wf_table :: "'v table \<Rightarrow> bool" where
  "wf_table t =
     (2 \<le> table_size t \<and> good (table_size t) \<and> Tombstone \<notin> set (array t) \<and>
      count t = int (occupied_slots t) \<and>
      (\<forall>i<table_size t. \<forall>k v. array t ! i = Occupied k v \<longrightarrow> reaches t k i))"

text \<open>The table after \<open>__setitem__\<close> has counted and written a pair into the cell \<open>p\<close>.\<close>

definition put :: "'v table \<Rightarrow> nat \<Rightarrow> key \<Rightarrow> 'v \<Rightarrow> 'v table" where
  "put t p key data = t\<lparr>count := count t + 1, array := (array t)[p := Occupied key data]\<rparr>"

text \<open>
  A ladder of good capacities in which every entry exceeds the one before it by at least
  two, and a table that stands on such a ladder: below the end of the ladder its capacity
  is the current entry and the load factor is respected; past the end its capacity is the
  last entry and the load factor is exceeded.
\<close>

fun spaced :: "nat list \<Rightarrow> bool" where
  "spaced (a # b # xs) = (a + 2 \<le> b \<and> spaced (b # xs))"
| "spaced _ = True"

definition good_ladder :: "nat list \<Rightarrow> bool" where
  "good_ladder szs = ((\<forall>m\<in>set szs. 2 \<le> m \<and> good m) \<and> spaced szs)"

definition linked :: "'v table \<Rightarrow> bool" where
  "linked t =
     (good_ladder (sizes t) \<and>
      (size_index t < length (sizes t) \<longrightarrow> table_size t = sizes t ! size_index t) \<and>
      (3 * count t \<le> 2 * int (table_size t) \<or> length (sizes t) \<le> size_index t) \<and>
      (length (sizes t) \<le> size_index t \<longrightarrow>
         table_size t = last (sizes t) \<and> 2 * int (last (sizes t)) < 3 * count t))"

text \<open>Trial division: none of \<open>d, d + 1, ..., d + n - 1\<close> divides \<open>m\<close>.\<close>

fun trial :: "nat \<Rightarrow> nat \<Rightarrow> nat \<Rightarrow> bool" where
  "trial m d 0 = True"
| "trial m d (Suc n) = (m mod d \<noteq> 0 \<and> trial m (Suc d) n)"

text \<open>
  The state after the pairs \<open>seen\<close> have been set: either all of them are stored, or the
  table has filled up on the way.
\<close>

definition settled :: "'v table \<Rightarrow> (key \<times> 'v) list \<Rightarrow> bool" where
  "settled t seen =
     (wf_table t \<and> linked t \<and> entries t = set seen \<and> count t = int (length seen))"

definition stuck :: "'v table \<Rightarrow> nat \<Rightarrow> bool" where
  "stuck t n = (wf_table t \<and> is_full t \<and> table_size t \<le> n)"


section \<open>Properties\<close>

subsection \<open>Evaluation on concrete tables\<close>

lemma probe_loop_pos:
  "0 < fuel \<Longrightarrow> probe_loop fuel t key is_insert position step first_empty_index =
     (if is_full t then
        Some (Inl (if is_insert then FullError else KeyError key), t)
      else if table_size t \<le> position then Some (Inl IndexError, t)
      else
        (case array t ! position of
           Empty \<Rightarrow>
             if is_insert then Some (Inr position, t)
             else Some (Inl (KeyError key), t)
         | Tombstone \<Rightarrow>
             if is_insert then Some (Inr position, t)
             else
               (let first_empty_index' =
                      (if falsy first_empty_index then Some position else first_empty_index)
                in case lazy_step t key step of
                     Inl e \<Rightarrow> Some (Inl e, t)
                   | Inr s \<Rightarrow>
                       probe_loop (fuel - 1) t key is_insert ((position + s) mod table_size t)
                         (Some s) first_empty_index')
         | Occupied k v \<Rightarrow>
             if k = key then
               (case first_empty_index of
                  None \<Rightarrow> Some (Inr position, t)
                | Some i \<Rightarrow>
                    if i = 0 then Some (Inr position, t)
                    else
                      Some (Inr i,
                        t\<lparr>array := (array t)[i := array t ! position, position := array t ! i]\<rparr>))
             else
               (case lazy_step t key step of
                  Inl e \<Rightarrow> Some (Inl e, t)
                | Inr s \<Rightarrow>
                    probe_loop (fuel - 1) t key is_insert ((position + s) mod table_size t)
                      (Some s) first_empty_index)))"
  by (cases fuel) (auto simp: Let_def split: slot.splits sum.splits option.splits)

lemma rehash_pos:
  "0 < fuel \<Longrightarrow> rehash fuel t =
     (let old_array = array t;
          t1 = t\<lparr>size_index := size_index t + 1\<rparr>
      in if size_index t1 = length (sizes t1) then Some (Inr (), t1)
         else if length (sizes t1) \<le> size_index t1 then Some (Inl IndexError, t1)
         else rehash_loop (fuel - 1) old_array
                (t1\<lparr>array := ArrayR (sizes t1 ! size_index t1), count := 0\<rparr>))"
  by (cases fuel) (auto simp: Let_def)

lemma replicate_numeral_Cons:
  "replicate (numeral k) x = x # replicate (pred_numeral k) x"
  by (simp add: numeral_eq_Suc)

lemmas eval_defs = replicate_numeral_Cons probe_loop_pos rehash_pos
  script_def init_def ArrayR_def hash_def hash2_def hashy_probe_def
  getitem_def delitem_def contains_def reply_of_def is_full_def table_size_def len_def
  dunder_len_def
  HASH_BASE_def TABLE_SIZES_def occupied_slots_def positions_of_def str_def

subsection \<open>The hash functions\<close>

lemma hash_loop_range:
  "2 \<le> m \<Longrightarrow> value < m \<Longrightarrow> \<exists>h. hash_loop m key value a = Inr h \<and> h < m"
  by (induction key arbitrary: "value" a) auto

lemma hash2_loop_range:
  "2 \<le> m \<Longrightarrow> value < m - 1 \<Longrightarrow> \<exists>h. hash2_loop m key value a = Inr h \<and> h < m - 1"
  by (induction key arbitrary: "value" a) auto

lemma hash_range: "2 \<le> table_size t \<Longrightarrow> \<exists>h. hash t key = Inr h \<and> h < table_size t"
  unfolding hash_def by (rule hash_loop_range) simp_all

lemma hash2_range:
  assumes "2 \<le> table_size t"
  shows "\<exists>s. hash2 t key = Inr s \<and> 1 \<le> s \<and> s \<le> table_size t - 1"
proof -
  from assms have "(0::nat) < table_size t - 1" by simp
  from hash2_loop_range [OF assms this]
  obtain h where "hash2_loop (table_size t) key 0 31415 = Inr h" "h < table_size t - 1"
    by blast
  then show ?thesis by (simp add: hash2_def)
qed

lemma TABLE_SIZES_ge: "m \<in> set TABLE_SIZES \<Longrightarrow> 5 \<le> m"
  by (auto simp: TABLE_SIZES_def)

text \<open>
  Claim C9. For every key and every capacity \<open>m\<close> of the default ladder, \<open>hash\<close> returns a
  value in \<open>[0, m)\<close> and \<open>hash2\<close> returns a value in \<open>[1, m - 1]\<close>; neither raises, and the
  step is never \<open>0\<close>. (The empty key is covered as well: it gives \<open>0\<close> and \<open>1\<close>.)
\<close>

theorem hash_in_range_step_in_range:
  assumes "table_size t \<in> set TABLE_SIZES"
  shows "\<exists>h s. hash t key = Inr h \<and> h < table_size t \<and>
               hash2 t key = Inr s \<and> 1 \<le> s \<and> s \<le> table_size t - 1 \<and> s \<noteq> 0"
proof -
  from assms have m: "2 \<le> table_size t"
    using TABLE_SIZES_ge by fastforce
  from hash_range [OF m] obtain h where "hash t key = Inr h" "h < table_size t"
    by blast
  moreover from hash2_range [OF m]
  obtain s where "hash2 t key = Inr s" "1 \<le> s" "s \<le> table_size t - 1"
    by blast
  ultimately show ?thesis by auto
qed

theorem hash_in_range_step_in_range_witness:
  "table_size \<lparr>sizes = TABLE_SIZES, size_index = 0, array = ArrayR 5, count = 0\<rparr>
     \<in> set TABLE_SIZES \<and>
   hash \<lparr>sizes = TABLE_SIZES, size_index = 0, array = ArrayR 5, count = 0\<rparr> [104, 105]
     = Inr 4 \<and>
   hash2 \<lparr>sizes = TABLE_SIZES, size_index = 0, array = ArrayR 5, count = 0\<rparr> [104, 105]
     = Inr 2"
  using hash_in_range_step_in_range
    [of "\<lparr>sizes = TABLE_SIZES, size_index = 0, array = ArrayR 5, count = 0\<rparr>" "[104, 105]"]
  by (simp add: eval_defs)


subsection \<open>Exhausting the ladder\<close>

text \<open>
  What \<open>_rehash\<close> does at the end of the ladder, in general: called at the last entry it
  returns silently, but it has moved \<open>size_index\<close> to the length of the ladder; called
  again it moves \<open>size_index\<close> past the length, the comparison with the length fails, and
  the read of \<open>self.TABLE_SIZES[self.size_index]\<close> raises \<open>IndexError\<close>.
\<close>

lemma rehash_at_last_entry:
  "size_index t + 1 = length (sizes t) \<Longrightarrow>
     rehash (Suc fuel) t = Some (Inr (), t\<lparr>size_index := size_index t + 1\<rparr>)"
  by (simp add: Let_def)

lemma rehash_beyond_ladder:
  "length (sizes t) \<le> size_index t \<Longrightarrow>
     rehash (Suc fuel) t = Some (Inl IndexError, t\<lparr>size_index := size_index t + 1\<rparr>)"
  by (simp add: Let_def)

text \<open>
  Claim C1 says that at the last ladder entry the rehash request of \<open>set\<close> is a silent
  no-op and that every later load-factor breach is silently ignored as well. The code
  does the first and not the second. On the one-entry ladder \<open>[5]\<close> the keys \<open>"a"\<close>,
  \<open>"b"\<close>, \<open>"c"\<close>, \<open>"d"\<close> are set without an exception; the fourth call breaches the
  load factor and leaves capacity, array and counter alone, but \<open>size_index\<close> is now \<open>1\<close>.
  The next call, for \<open>"e"\<close>, writes the pair, breaches the load factor again and raises
  \<open>IndexError\<close>.
\<close>

theorem second_breach_at_ladder_end_raises:
  "script 10 (Some [5]) [Set [97] (1::nat), Set [98] 2, Set [99] 3, Set [100] 4] =
     Some ([Inr Done, Inr Done, Inr Done, Inr Done],
       \<lparr>sizes = [5], size_index = 1,
        array = [Occupied [100] 4, Empty, Occupied [97] 1, Occupied [98] 2, Occupied [99] 3],
        count = 4\<rparr>) \<and>
   setitem 10
       \<lparr>sizes = [5], size_index = 1,
        array = [Occupied [100] 4, Empty, Occupied [97] 1, Occupied [98] 2, Occupied [99] 3],
        count = 4\<rparr> [101] (5::nat) =
     Some (Inl IndexError,
       \<lparr>sizes = [5], size_index = 2,
        array = [Occupied [100] 4, Occupied [101] 5, Occupied [97] 1, Occupied [98] 2,
                 Occupied [99] 3],
        count = 5\<rparr>)"
  by (simp add: eval_defs)

text \<open>
  Claim C7 says that on the ladder \<open>[5, 5]\<close> five distinct keys are inserted without an
  exception and the sixth raises \<open>Full\<close>. In the code the fourth insertion rehashes into
  the second array of five cells, and re-inserting the fourth pair there asks for a rehash
  again, which ends the ladder silently (\<open>size_index = 2\<close>). The fifth insertion then
  raises \<open>IndexError\<close> after it has written its pair; the sixth raises \<open>FullError\<close>.
\<close>

theorem fifth_insert_on_ladder_5_5_raises:
  "script 10 (Some [5, 5])
     [Set [97] (1::nat), Set [98] 2, Set [99] 3, Set [100] 4, Set [101] 5, Set [102] 6] =
     Some ([Inr Done, Inr Done, Inr Done, Inr Done, Inl IndexError, Inl FullError],
       \<lparr>sizes = [5, 5], size_index = 3,
        array = [Occupied [100] 4, Occupied [101] 5, Occupied [97] 1, Occupied [98] 2,
                 Occupied [99] 3],
        count = 5\<rparr>)"
  by (simp add: eval_defs)

text \<open>
  Claim C6 is the round trip: pairwise distinct keys \<open>k1..kn\<close> with \<open>n\<close> below the
  capacity are set on an empty table, and then every \<open>get(ki)\<close> returns \<open>vi\<close>. On the
  one-entry ladder \<open>[7]\<close> six distinct keys are fewer than the capacity \<open>7\<close>. The fifth
  \<open>set\<close> breaches the load factor at the end of the ladder, silently; the sixth \<open>set\<close>
  stores its pair and raises \<open>IndexError\<close> instead of returning, so the sets of the round
  trip do not go through. (A caller that catches the exception finds every pair: the
  lookups that follow return the stored values.)
\<close>

theorem sixth_insert_on_ladder_7_raises:
  "script 10 (Some [7])
     [Set [97] (1::nat), Set [98] 2, Set [99] 3, Set [100] 4, Set [101] 5, Set [102] 6,
      Get [97], Get [102]] =
     Some ([Inr Done, Inr Done, Inr Done, Inr Done, Inr Done, Inl IndexError,
            Inr (Value 1), Inr (Value 6)],
       \<lparr>sizes = [7], size_index = 2,
        array = [Occupied [98] 2, Occupied [99] 3, Occupied [100] 4, Occupied [101] 5,
                 Occupied [102] 6, Empty, Occupied [97] 1],
        count = 6\<rparr>)"
  by (simp add: eval_defs)

subsection \<open>The counter and the tombstones\<close>

text \<open>
  \<open>__setitem__\<close> on a cell that the probe resolved to a tombstone: the pair is written
  and the counter stays as it is.
\<close>

lemma setitem_on_tombstone:
  assumes "hashy_probe fuel t key True = Some (Inr p, t)" and "array t ! p = Tombstone"
    and "0 \<le> count t" and "\<not> 3 * count t > 2 * int (table_size t)"
  shows "setitem fuel t key data =
    Some (Inr (), t\<lparr>array := (array t)[p := Occupied key data]\<rparr>)"
  using assms by (simp add: len_def dunder_len_def table_size_def)

text \<open>
  Deleting the key once more takes the counter below zero, and the next \<open>set\<close> stores its
  pair and then fails in \<open>len(self)\<close>.
\<close>

lemma set_with_negative_counter_raises:
  "script 10 None [Set [97] (1::nat), Delete [97], Set [97] 2, Delete [97], Set [97] 3] =
     Some ([Inr Done, Inr Done, Inr Done, Inr Done, Inl ValueError],
       \<lparr>sizes = TABLE_SIZES, size_index = 0,
        array = [Empty, Empty, Occupied [97] 3, Empty, Empty], count = - 1\<rparr>)"
  by (simp add: eval_defs)

text \<open>
  Claim C2 says that \<open>len\<close> is the number of \<open>Occupied\<close> cells in every reachable state,
  and that \<open>set\<close> increments the counter when the cell it resolved was \<open>Empty\<close> or
  \<open>Tombstone\<close>. The code increments it for an \<open>Empty\<close> cell only. On the default ladder,
  \<open>set("a", 1)\<close>, \<open>delete("a")\<close>, \<open>set("a", 2)\<close> end with one \<open>Occupied\<close> cell and
  \<open>len = 0\<close>.
\<close>

theorem set_on_tombstone_keeps_count:
  "script 10 None [Set [97] (1::nat), Delete [97], Set [97] 2] =
     Some ([Inr Done, Inr Done, Inr Done],
       \<lparr>sizes = TABLE_SIZES, size_index = 0,
        array = [Empty, Empty, Occupied [97] 2, Empty, Empty], count = 0\<rparr>) \<and>
   len \<lparr>sizes = TABLE_SIZES, size_index = 0,
        array = [Empty, Empty, Occupied [97] (2::nat), Empty, Empty], count = 0\<rparr> = Inr 0 \<and>
   occupied_slots \<lparr>sizes = TABLE_SIZES, size_index = 0,
        array = [Empty, Empty, Occupied [97] (2::nat), Empty, Empty], count = 0\<rparr> = 1"
  by (simp add: eval_defs)

text \<open>
  Claim C3 says that a key is in at most one \<open>Occupied\<close> cell in every reachable state.
  The keys \<open>"A"\<close> and \<open>"F"\<close> both hash to cell \<open>0\<close> at capacity \<open>5\<close>, and \<open>"F"\<close> steps
  by \<open>3\<close>. After \<open>set("A", 1)\<close>, \<open>set("F", 2)\<close>, \<open>delete("A")\<close> the key \<open>"F"\<close> is in cell
  \<open>3\<close>, behind a tombstone in cell \<open>0\<close>. \<open>set("F", 3)\<close> stops at the tombstone and writes
  a second binding: \<open>"F"\<close> is in the cells \<open>0\<close> and \<open>3\<close>. A following \<open>delete("F")\<close>
  removes the new binding only, and \<open>get("F")\<close> returns the old value \<open>2\<close>.
\<close>

theorem set_behind_tombstone_duplicates_key:
  "script 10 None [Set [65] (1::nat), Set [70] 2, Delete [65], Set [70] 3] =
     Some ([Inr Done, Inr Done, Inr Done, Inr Done],
       \<lparr>sizes = TABLE_SIZES, size_index = 0,
        array = [Occupied [70] 3, Empty, Empty, Occupied [70] 2, Empty], count = 1\<rparr>) \<and>
   positions_of \<lparr>sizes = TABLE_SIZES, size_index = 0,
        array = [Occupied [70] (3::nat), Empty, Empty, Occupied [70] 2, Empty], count = 1\<rparr>
     [70] = [0, 3] \<and>
   run 10 \<lparr>sizes = TABLE_SIZES, size_index = 0,
        array = [Occupied [70] (3::nat), Empty, Empty, Occupied [70] 2, Empty], count = 1\<rparr>
     [Delete [70], Get [70]] =
     Some ([Inr Done, Inr (Value 2)],
       \<lparr>sizes = TABLE_SIZES, size_index = 0,
        array = [Tombstone, Empty, Empty, Occupied [70] 2, Empty], count = 0\<rparr>)"
  by (simp add: eval_defs upt_conv_Cons)


subsection \<open>Lookups on a full table\<close>

text \<open>
  The test \<open>self.is_full()\<close> stands at the head of the loop for both intents, and the code
  after the loop raises \<open>KeyError\<close> for a lookup: on a full table every lookup fails,
  whether the key is stored or not.
\<close>

lemma lookup_on_full_table:
  assumes "is_full t" and "hash t key = Inr position"
  shows "hashy_probe (Suc fuel) t key False = Some (Inl (KeyError key), t)"
  using assms by (simp add: hashy_probe_def)

text \<open>
  Claim C4 says that fullness stops a probe walk under insert intent only, and that \<open>get\<close>
  and \<open>delete\<close> on a full table still succeed for every stored key. On the one-entry
  ladder \<open>[3]\<close> the keys \<open>"a"\<close>, \<open>"b"\<close>, \<open>"c"\<close> are set without an exception (the third call
  breaches the load factor at the end of the ladder, silently), and the table is full. Then
  \<open>get("a")\<close> and \<open>delete("b")\<close> raise \<open>KeyError\<close>, \<open>contains("c")\<close> is \<open>False\<close>, and
  nothing has changed in the table.
\<close>

theorem lookup_on_full_table_raises_KeyError:
  "script 10 (Some [3])
     [Set [97] (1::nat), Set [98] 2, Set [99] 3, Get [97], Delete [98], Contains [99]] =
     Some ([Inr Done, Inr Done, Inr Done, Inl (KeyError [97]), Inl (KeyError [98]),
            Inr (Truth False)],
       \<lparr>sizes = [3], size_index = 1,
        array = [Occupied [99] 3, Occupied [97] 1, Occupied [98] 2], count = 3\<rparr>) \<and>
   is_full \<lparr>sizes = [3], size_index = 1,
        array = [Occupied [99] (3::nat), Occupied [97] 1, Occupied [98] 2], count = 3\<rparr>"
  by (simp add: eval_defs)

subsection \<open>A probe walk that never ends\<close>

text \<open>
  When every cell is \<open>Occupied\<close> by another key and the counter differs from the capacity,
  no branch of the loop leaves it: the walk goes on for every amount of fuel.
\<close>

lemma lazy_step_defined:
  assumes "2 \<le> table_size t"
  shows "\<exists>s. lazy_step t key step = Inr s"
proof (cases step)
  case None
  with hash2_range [OF assms, of key] show ?thesis by auto
next
  case (Some s)
  with hash2_range [OF assms, of key] show ?thesis by auto
qed

lemma probe_loop_never_leaves:
  assumes "\<not> is_full t" and "2 \<le> table_size t"
    and "\<And>i. i < table_size t \<Longrightarrow> \<exists>k v. array t ! i = Occupied k v \<and> k \<noteq> key"
  shows "position < table_size t \<Longrightarrow>
    probe_loop fuel t key is_insert position step first_empty_index = None"
proof (induction fuel arbitrary: position step first_empty_index)
  case 0
  show ?case by simp
next
  case (Suc fuel)
  from assms(3) [OF Suc.prems] obtain k v
    where cell: "array t ! position = Occupied k v" "k \<noteq> key" by blast
  from lazy_step_defined [OF assms(2)] obtain s where s: "lazy_step t key step = Inr s"
    by blast
  from assms(2) have "(position + s) mod table_size t < table_size t" by simp
  from Suc.IH [OF this] show ?case
    using assms(1) Suc.prems cell s by simp
qed

lemma hashy_probe_never_leaves:
  assumes "\<not> is_full t" and "2 \<le> table_size t"
    and "\<And>i. i < table_size t \<Longrightarrow> \<exists>k v. array t ! i = Occupied k v \<and> k \<noteq> key"
  shows "hashy_probe fuel t key is_insert = None"
proof -
  from hash_range [OF assms(2)] obtain h where "hash t key = Inr h" "h < table_size t"
    by blast
  with probe_loop_never_leaves [OF assms] show ?thesis
    by (simp add: hashy_probe_def)
qed

text \<open>
  Claim C5 says that the probe walk ends for every key in every reachable state. On the
  default ladder, \<open>set("a")\<close>, \<open>delete("a")\<close>, \<open>set("a")\<close> and then \<open>set("b")\<close>,
  \<open>delete("b")\<close>, \<open>set("b")\<close> leave two \<open>Occupied\<close> cells and the counter at \<open>0\<close>,
  since \<open>set\<close> does not count the reuse of a tombstone; the counter is never negative on
  the way. Setting \<open>"c"\<close>, \<open>"d"\<close>, \<open>"e"\<close> then fills all five cells while the counter
  reaches \<open>3\<close>: no rehash is asked for and the table does not report full. None of the
  nine calls raises. In this state the walk for the key \<open>"z"\<close> never ends, for lookup and
  for insert.
\<close>

theorem probe_walk_runs_forever:
  "script 10 None
     [Set [97] (1::nat), Delete [97], Set [97] 1, Set [98] 2, Delete [98], Set [98] 2,
      Set [99] 3, Set [100] 4, Set [101] 5] =
     Some ([Inr Done, Inr Done, Inr Done, Inr Done, Inr Done, Inr Done, Inr Done, Inr Done,
            Inr Done],
       \<lparr>sizes = TABLE_SIZES, size_index = 0,
        array = [Occupied [100] 4, Occupied [101] 5, Occupied [97] 1, Occupied [98] 2,
                 Occupied [99] 3],
        count = 3\<rparr>) \<and>
   (\<forall>fuel is_insert.
      hashy_probe fuel
        \<lparr>sizes = TABLE_SIZES, size_index = 0,
         array = [Occupied [100] (4::nat), Occupied [101] 5, Occupied [97] 1, Occupied [98] 2,
                  Occupied [99] 3],
         count = 3\<rparr> [122] is_insert = None) \<and>
   (\<forall>fuel.
      getitem fuel
        \<lparr>sizes = TABLE_SIZES, size_index = 0,
         array = [Occupied [100] (4::nat), Occupied [101] 5, Occupied [97] 1, Occupied [98] 2,
                  Occupied [99] 3],
         count = 3\<rparr> [122] = None)"
proof -
  let ?t = "\<lparr>sizes = TABLE_SIZES, size_index = 0,
         array = [Occupied [100] (4::nat), Occupied [101] 5, Occupied [97] 1, Occupied [98] 2,
                  Occupied [99] 3],
         count = 3\<rparr>"
  have reach: "script 10 None
     [Set [97] (1::nat), Delete [97], Set [97] 1, Set [98] 2, Delete [98], Set [98] 2,
      Set [99] 3, Set [100] 4, Set [101] 5] =
     Some ([Inr Done, Inr Done, Inr Done, Inr Done, Inr Done, Inr Done, Inr Done, Inr Done,
            Inr Done], ?t)"
    by (simp add: eval_defs)
  have nf: "\<not> is_full ?t" and sz: "2 \<le> table_size ?t"
    by (simp_all add: is_full_def table_size_def)
  have cells: "\<exists>k v. array ?t ! i = Occupied k v \<and> k \<noteq> [122]" if "i < table_size ?t" for i
  proof -
    from that have "i \<in> {0, 1, 2, 3, 4}" by (auto simp: table_size_def)
    then show ?thesis by auto
  qed
  have stuck: "hashy_probe fuel ?t [122] is_insert = None" for fuel is_insert
    by (rule hashy_probe_never_leaves [OF nf sz cells])
  then have "getitem fuel ?t [122] = None" for fuel
    by (simp add: getitem_def)
  with reach stuck show ?thesis by blast
qed

subsection \<open>Compaction on lookup\<close>

text \<open>
  A lookup that meets a tombstone in cell \<open>0\<close> first records the index \<open>0\<close>; with
  that index recorded, finding the key returns the cell of the key and swaps nothing.
\<close>

lemma tombstone_at_0_recorded:
  assumes "\<not> is_full t" and "0 < table_size t" and "array t ! 0 = Tombstone"
    and "lazy_step t key step = Inr s"
  shows "probe_loop (Suc fuel) t key False 0 step None =
    probe_loop fuel t key False (s mod table_size t) (Some s) (Some 0)"
  using assms by simp

lemma found_with_index_0_recorded:
  assumes "\<not> is_full t" and "position < table_size t"
    and "array t ! position = Occupied key v"
  shows "probe_loop (Suc fuel) t key is_insert position step (Some 0) = Some (Inr position, t)"
  using assms by simp

text \<open>
  Claim C8 says that a lookup which passes tombstones before it finds its key records the
  first tombstone, whatever its index, index \<open>0\<close> included, swaps the entry into that
  cell and returns that index. The code tests the recorded index by truth value, and the
  index \<open>0\<close> is false: after \<open>set("A", 1)\<close>, \<open>set("F", 2)\<close>, \<open>delete("A")\<close> the tombstone
  is in cell \<open>0\<close> and \<open>"F"\<close> in cell \<open>3\<close>; the lookup of \<open>"F"\<close> passes the tombstone and
  returns \<open>3\<close>, and no cell has moved. With the keys \<open>"B"\<close> and \<open>"G"\<close>, which meet in cell
  \<open>1\<close>, the same calls do compact: the lookup of \<open>"G"\<close> returns \<open>1\<close> and swaps.
\<close>

theorem tombstone_at_index_0_is_not_compacted:
  "script 10 None [Set [65] (1::nat), Set [70] 2, Delete [65]] =
     Some ([Inr Done, Inr Done, Inr Done],
       \<lparr>sizes = TABLE_SIZES, size_index = 0,
        array = [Tombstone, Empty, Empty, Occupied [70] 2, Empty], count = 1\<rparr>) \<and>
   hashy_probe 10
       \<lparr>sizes = TABLE_SIZES, size_index = 0,
        array = [Tombstone, Empty, Empty, Occupied [70] (2::nat), Empty], count = 1\<rparr>
       [70] False =
     Some (Inr 3,
       \<lparr>sizes = TABLE_SIZES, size_index = 0,
        array = [Tombstone, Empty, Empty, Occupied [70] 2, Empty], count = 1\<rparr>) \<and>
   script 10 None [Set [66] (1::nat), Set [71] 2, Delete [66]] =
     Some ([Inr Done, Inr Done, Inr Done],
       \<lparr>sizes = TABLE_SIZES, size_index = 0,
        array = [Occupied [71] 2, Tombstone, Empty, Empty, Empty], count = 1\<rparr>) \<and>
   hashy_probe 10
       \<lparr>sizes = TABLE_SIZES, size_index = 0,
        array = [Occupied [71] (2::nat), Tombstone, Empty, Empty, Empty], count = 1\<rparr>
       [71] False =
     Some (Inr 1,
       \<lparr>sizes = TABLE_SIZES, size_index = 0,
        array = [Tombstone, Occupied [71] 2, Empty, Empty, Empty], count = 1\<rparr>)"
  by (simp add: eval_defs)


subsection \<open>Rendering a table with a tombstone\<close>

lemma str_loop_tombstone:
  "Tombstone \<in> set items \<Longrightarrow> str_loop str_value items result = Inl TypeError"
  by (induction items arbitrary: result) (auto split: slot.splits)

lemma str_loop_no_tombstone:
  "Tombstone \<notin> set items \<Longrightarrow> \<exists>s. str_loop str_value items result = Inr s"
  by (induction items arbitrary: result) (auto split: slot.splits)

text \<open>The first \<open>set\<close> on the empty default table, and the \<open>delete\<close> that follows it.\<close>

lemma set_on_empty_default_table:
  assumes "hash (\<lparr>sizes = TABLE_SIZES, size_index = 0, array = ArrayR 5, count = 0\<rparr>
             :: 'v table) key = Inr p"
      and "p < 5"
  shows "setitem (Suc fuel)
           \<lparr>sizes = TABLE_SIZES, size_index = 0, array = ArrayR 5, count = 0\<rparr> key
           (data :: 'v) =
         Some (Inr (),
           \<lparr>sizes = TABLE_SIZES, size_index = 0,
            array = (ArrayR 5)[p := Occupied key data], count = 1\<rparr>)"
  using assms
  by (simp add: hashy_probe_def is_full_def table_size_def ArrayR_def len_def dunder_len_def)

lemma hash_depends_on_table_size:
  "table_size t = table_size t' \<Longrightarrow> hash t key = hash t' key"
  by (simp add: hash_def)

lemma delete_single_key:
  assumes "hash (\<lparr>sizes = TABLE_SIZES, size_index = 0, array = ArrayR 5, count = 0\<rparr>
             :: 'v table) key = Inr p"
      and "p < 5"
  shows "delitem (Suc fuel)
           \<lparr>sizes = TABLE_SIZES, size_index = 0,
            array = (ArrayR 5)[p := Occupied key (data :: 'v)], count = 1\<rparr> key =
         Some (Inr (),
           \<lparr>sizes = TABLE_SIZES, size_index = 0,
            array = (ArrayR 5)[p := Tombstone], count = 0\<rparr>)"
proof -
  have "hash \<lparr>sizes = TABLE_SIZES, size_index = 0,
            array = (ArrayR 5)[p := Occupied key data], count = 1\<rparr> key = Inr p"
    using assms(1) by (simp add: hash_def table_size_def ArrayR_def)
  then show ?thesis
    using assms(2)
    by (simp add: delitem_def hashy_probe_def is_full_def table_size_def ArrayR_def)
qed

text \<open>
  Claim C10. \<open>__str__\<close> returns a string exactly on the tables without a tombstone: it
  skips \<open>Empty\<close> cells, and at the first \<open>Tombstone\<close> cell the unpacking of the sentinel
  raises \<open>TypeError\<close>. Such a state is reached from the empty default table by
  \<open>set(k, v)\<close> followed by \<open>delete(k)\<close>, for every key and value.
\<close>

theorem str_fails_on_tombstone:
  "(str str_value t = Inl TypeError) = (Tombstone \<in> set (array t)) \<and>
   (\<exists>s. str str_value t = Inr s) = (Tombstone \<notin> set (array t)) \<and>
   (\<exists>t'. script (Suc fuel) None [Set k v, Delete k] = Some ([Inr Done, Inr Done], t') \<and>
         Tombstone \<in> set (array t') \<and> str str_value t' = Inl TypeError)"
proof -
  have a: "(str str_value t = Inl TypeError) = (Tombstone \<in> set (array t))"
  proof (cases "Tombstone \<in> set (array t)")
    case True
    with str_loop_tombstone [of "array t" str_value "[]"] show ?thesis
      by (simp add: str_def)
  next
    case False
    with str_loop_no_tombstone [of "array t" str_value "[]"] show ?thesis
      by (auto simp: str_def)
  qed
  have b: "(\<exists>s. str str_value t = Inr s) = (Tombstone \<notin> set (array t))"
  proof (cases "Tombstone \<in> set (array t)")
    case True
    with str_loop_tombstone [of "array t" str_value "[]"] show ?thesis
      by (simp add: str_def)
  next
    case False
    with str_loop_no_tombstone [of "array t" str_value "[]"] show ?thesis
      by (simp add: str_def)
  qed
  let ?t0 = "\<lparr>sizes = TABLE_SIZES, size_index = 0, array = ArrayR 5, count = 0\<rparr> :: 'a table"
  have "2 \<le> table_size ?t0" by (simp add: table_size_def ArrayR_def)
  from hash_range [OF this, of k] obtain p where p: "hash ?t0 k = Inr p" "p < 5"
    by (auto simp: table_size_def ArrayR_def)
  let ?t2 = "\<lparr>sizes = TABLE_SIZES, size_index = 0, array = (ArrayR 5)[p := Tombstone],
              count = 0\<rparr> :: 'a table"
  have init: "init None = Inr ?t0"
    by (simp add: init_def TABLE_SIZES_def)
  have "script (Suc fuel) None [Set k v, Delete k] = Some ([Inr Done, Inr Done], ?t2)"
    unfolding script_def init
    using set_on_empty_default_table [OF p, of fuel v] delete_single_key [OF p, of fuel v]
    by (simp add: reply_of_def)
  moreover have tomb: "Tombstone \<in> set (array ?t2)"
    using p(2) by (simp add: ArrayR_def set_update_memI)
  moreover have "str str_value ?t2 = Inl TypeError"
    using tomb str_loop_tombstone [of "array ?t2" str_value "[]"] by (simp add: str_def)
  ultimately have c: "\<exists>t'. script (Suc fuel) None [Set k v, Delete k]
        = Some ([Inr Done, Inr Done], t') \<and>
      Tombstone \<in> set (array t') \<and> str str_value t' = Inl TypeError"
    by blast
  from a b c show ?thesis by blast
qed

section \<open>The round trip on tables without tombstones\<close>

subsection \<open>Walks\<close>

lemma walk_0: "p < m \<Longrightarrow> walk m p s 0 = p"
  by (simp add: walk_def)

lemma walk_less: "0 < m \<Longrightarrow> walk m h s j < m"
  by (simp add: walk_def)

lemma walk_shift: "walk m ((p + s) mod m) s j = walk m p s (Suc j)"
  by (simp add: walk_def mod_add_left_eq add.assoc)

lemma walk_inj:
  assumes "coprime s m" and "j1 < j2" and "j2 < m"
  shows "walk m h s j1 \<noteq> walk m h s j2"
proof
  assume "walk m h s j1 = walk m h s j2"
  then have "(h + j2 * s) mod m = (h + j1 * s) mod m" by (simp add: walk_def)
  moreover from assms(2) have "h + j1 * s \<le> h + j2 * s" by simp
  ultimately have "m dvd (h + j2 * s) - (h + j1 * s)"
    by (simp add: mod_eq_dvd_iff_nat)
  then have "m dvd (j2 - j1) * s" by (simp add: diff_mult_distrib)
  with assms(1) have "m dvd j2 - j1"
    by (simp add: coprime_dvd_mult_left_iff coprime_commute)
  moreover from assms have "0 < j2 - j1" "j2 - j1 < m" by simp_all
  ultimately show False by (simp add: nat_dvd_not_less)
qed

lemma walk_inj_on: "coprime s m \<Longrightarrow> inj_on (walk m h s) {..<m}"
proof (rule inj_onI)
  fix x y assume c: "coprime s m" and "x \<in> {..<m}" "y \<in> {..<m}" "walk m h s x = walk m h s y"
  then show "x = y"
    using walk_inj [OF c, of x y h] walk_inj [OF c, of y x h]
    by (cases x y rule: linorder_cases) auto
qed

lemma walk_surj:
  assumes "coprime s m" and "e < m"
  shows "\<exists>j<m. walk m h s j = e"
proof -
  from assms have m: "0 < m" by simp
  have sub: "walk m h s ` {..<m} \<subseteq> {..<m}"
    using walk_less [OF m] by auto
  have "card (walk m h s ` {..<m}) = card {..<m}"
    using walk_inj_on [OF assms(1)] by (rule card_image)
  with sub have "walk m h s ` {..<m} = {..<m}"
    by (simp add: card_subset_eq)
  with assms(2) have "e \<in> walk m h s ` {..<m}" by simp
  then show ?thesis by auto
qed

lemma hash_home:
  assumes "2 \<le> table_size t"
  shows "hash t key = Inr (home (table_size t) key)" and "home (table_size t) key < table_size t"
proof -
  from hash_loop_range [OF assms, of 0 key 31415]
  obtain h where "hash_loop (table_size t) key 0 31415 = Inr h" "h < table_size t"
    using assms by auto
  then show "hash t key = Inr (home (table_size t) key)"
    and "home (table_size t) key < table_size t"
    by (simp_all add: hash_def home_def)
qed

lemma hash2_stride:
  assumes "2 \<le> table_size t"
  shows "hash2 t key = Inr (stride (table_size t) key)"
    and "1 \<le> stride (table_size t) key" and "stride (table_size t) key < table_size t"
proof -
  from assms have "(0::nat) < table_size t - 1" by simp
  from hash2_loop_range [OF assms this, of key 31415]
  obtain h where "hash2_loop (table_size t) key 0 31415 = Inr h" "h < table_size t - 1"
    by auto
  then show "hash2 t key = Inr (stride (table_size t) key)"
    and "1 \<le> stride (table_size t) key" and "stride (table_size t) key < table_size t"
    by (simp_all add: hash2_def stride_def)
qed

lemma lazy_step_stride:
  assumes "2 \<le> table_size t" and "step = None \<or> step = Some (stride (table_size t) key)"
  shows "lazy_step t key step = Inr (stride (table_size t) key)"
  using assms hash2_stride [OF assms(1), of key] by auto

text \<open>
  A walk that meets only cells occupied by other keys and then a cell that is free for the
  intent, or that holds the key: the probe returns that cell and leaves the table as it is.
\<close>

lemma probe_loop_walk_insert:
  assumes "\<not> is_full t" and "2 \<le> table_size t"
  shows "p < table_size t \<Longrightarrow>
    step = None \<or> step = Some (stride (table_size t) key) \<Longrightarrow>
    \<forall>i<j. other_key key (array t ! walk (table_size t) p (stride (table_size t) key) i) \<Longrightarrow>
    array t ! walk (table_size t) p (stride (table_size t) key) j = Empty \<Longrightarrow>
    j < fuel \<Longrightarrow>
    probe_loop fuel t key True p step fe
      = Some (Inr (walk (table_size t) p (stride (table_size t) key) j), t)"
proof (induction j arbitrary: p step fuel)
  case 0
  then obtain f where "fuel = Suc f" by (cases fuel) auto
  with 0 assms show ?case by (simp add: walk_0)
next
  case (Suc j)
  let ?m = "table_size t" and ?s = "stride (table_size t) key"
  from Suc.prems obtain f where f: "fuel = Suc f" "j < f" by (cases fuel) auto
  from Suc.prems(3) have "other_key key (array t ! walk ?m p ?s 0)" by blast
  with Suc.prems(1) obtain k v where cell: "array t ! p = Occupied k v" "k \<noteq> key"
    by (auto simp: walk_0 other_key_def split: slot.splits)
  have ls: "lazy_step t key step = Inr ?s"
    by (rule lazy_step_stride [OF assms(2) Suc.prems(2)])
  have p': "(p + ?s) mod ?m < ?m" using assms(2) by simp
  have "probe_loop f t key True ((p + ?s) mod ?m) (Some ?s) fe
      = Some (Inr (walk ?m ((p + ?s) mod ?m) ?s j), t)"
  proof (rule Suc.IH [OF p'])
    show "Some ?s = None \<or> Some ?s = Some ?s" by simp
    show "\<forall>i<j. other_key key (array t ! walk ?m ((p + ?s) mod ?m) ?s i)"
      using Suc.prems(3) by (simp add: walk_shift)
    show "array t ! walk ?m ((p + ?s) mod ?m) ?s j = Empty"
      using Suc.prems(4) by (simp add: walk_shift)
    show "j < f" by fact
  qed
  then show ?case
    using f assms(1) Suc.prems(1) cell ls by (simp add: walk_shift)
qed

lemma probe_loop_walk_found:
  assumes "\<not> is_full t" and "2 \<le> table_size t"
  shows "p < table_size t \<Longrightarrow>
    step = None \<or> step = Some (stride (table_size t) key) \<Longrightarrow>
    \<forall>i<j. other_key key (array t ! walk (table_size t) p (stride (table_size t) key) i) \<Longrightarrow>
    array t ! walk (table_size t) p (stride (table_size t) key) j = Occupied key v \<Longrightarrow>
    j < fuel \<Longrightarrow>
    probe_loop fuel t key is_insert p step None
      = Some (Inr (walk (table_size t) p (stride (table_size t) key) j), t)"
proof (induction j arbitrary: p step fuel)
  case 0
  then obtain f where "fuel = Suc f" by (cases fuel) auto
  with 0 assms show ?case by (simp add: walk_0)
next
  case (Suc j)
  let ?m = "table_size t" and ?s = "stride (table_size t) key"
  from Suc.prems obtain f where f: "fuel = Suc f" "j < f" by (cases fuel) auto
  from Suc.prems(3) have "other_key key (array t ! walk ?m p ?s 0)" by blast
  with Suc.prems(1) obtain k v' where cell: "array t ! p = Occupied k v'" "k \<noteq> key"
    by (auto simp: walk_0 other_key_def split: slot.splits)
  have ls: "lazy_step t key step = Inr ?s"
    by (rule lazy_step_stride [OF assms(2) Suc.prems(2)])
  have p': "(p + ?s) mod ?m < ?m" using assms(2) by simp
  have "probe_loop f t key is_insert ((p + ?s) mod ?m) (Some ?s) None
      = Some (Inr (walk ?m ((p + ?s) mod ?m) ?s j), t)"
  proof (rule Suc.IH [OF p'])
    show "Some ?s = None \<or> Some ?s = Some ?s" by simp
    show "\<forall>i<j. other_key key (array t ! walk ?m ((p + ?s) mod ?m) ?s i)"
      using Suc.prems(3) by (simp add: walk_shift)
    show "array t ! walk ?m ((p + ?s) mod ?m) ?s j = Occupied key v"
      using Suc.prems(4) by (simp add: walk_shift)
    show "j < f" by fact
  qed
  then show ?case
    using f assms(1) Suc.prems(1) cell ls by (simp add: walk_shift)
qed

lemma entries_nth: "(k, v) \<in> entries t \<longleftrightarrow> (\<exists>i<table_size t. array t ! i = Occupied k v)"
  by (auto simp: entries_def entries_of_def table_size_def in_set_conv_nth)

lemma getitem_found:
  assumes "wf_table t" and "\<not> is_full t" and "(k, v) \<in> entries t" and "table_size t \<le> fuel"
  shows "getitem fuel t k = Some (Inr v, t)"
proof -
  let ?m = "table_size t"
  from assms(1) have m: "2 \<le> ?m" by (simp add: wf_table_def)
  from assms(3) obtain i where i: "i < ?m" "array t ! i = Occupied k v"
    by (auto simp: entries_nth)
  with assms(1) have "reaches t k i" by (simp add: wf_table_def)
  then obtain j where j: "j < ?m" "walk ?m (home ?m k) (stride ?m k) j = i"
    "\<forall>j'<j. other_key k (array t ! walk ?m (home ?m k) (stride ?m k) j')"
    by (auto simp: reaches_def)
  have "probe_loop fuel t k False (home ?m k) None None
      = Some (Inr (walk ?m (home ?m k) (stride ?m k) j), t)"
  proof (rule probe_loop_walk_found [OF assms(2) m])
    show "home ?m k < ?m" by (rule hash_home(2) [OF m])
    show "None = None \<or> None = Some (stride ?m k)" by simp
    show "\<forall>i<j. other_key k (array t ! walk ?m (home ?m k) (stride ?m k) i)" by (rule j(3))
    show "array t ! walk ?m (home ?m k) (stride ?m k) j = Occupied k v"
      using i j by simp
    show "j < fuel" using j(1) assms(4) by simp
  qed
  then have "hashy_probe fuel t k False = Some (Inr i, t)"
    using hash_home(1) [OF m, of k] j(2) by (simp add: hashy_probe_def)
  then show ?thesis using i by (simp add: getitem_def)
qed

lemma filter_short:
  assumes "length (filter P xs) < length xs"
  shows "\<exists>i<length xs. \<not> P (xs ! i)"
proof (rule ccontr)
  assume "\<not> (\<exists>i<length xs. \<not> P (xs ! i))"
  then have "\<forall>x\<in>set xs. P x" by (auto simp: in_set_conv_nth)
  then have "filter P xs = xs" by simp
  with assms show False by simp
qed

lemma exists_empty:
  assumes "wf_table t" and "count t < int (table_size t)"
  shows "\<exists>e<table_size t. array t ! e = Empty"
proof -
  from assms have "length (filter is_occupied (array t)) < length (array t)"
    by (simp add: wf_table_def occupied_slots_def table_size_def)
  from filter_short [OF this] obtain e
    where e: "e < length (array t)" "\<not> is_occupied (array t ! e)" by blast
  moreover from e(1) have "array t ! e \<in> set (array t)" by simp
  with assms(1) have "array t ! e \<noteq> Tombstone"
    by (auto simp: wf_table_def)
  ultimately show ?thesis
    by (cases "array t ! e") (auto simp: table_size_def)
qed

lemma first_free:
  assumes "wf_table t" and "count t < int (table_size t)" and "key \<notin> fst ` entries t"
  shows "\<exists>j<table_size t.
    array t ! walk (table_size t) (home (table_size t) key) (stride (table_size t) key) j = Empty \<and>
    (\<forall>i<j. other_key key
       (array t ! walk (table_size t) (home (table_size t) key) (stride (table_size t) key) i))"
proof -
  let ?m = "table_size t"
  let ?w = "walk ?m (home ?m key) (stride ?m key)"
  let ?P = "\<lambda>j. \<not> other_key key (array t ! ?w j)"
  from assms(1) have m: "2 \<le> ?m" and g: "good ?m" by (simp_all add: wf_table_def)
  from exists_empty [OF assms(1,2)] obtain e where e: "e < ?m" "array t ! e = Empty" by blast
  from hash2_stride [OF m, of key] g have "coprime (stride ?m key) ?m"
    by (simp add: good_def)
  from walk_surj [OF this e(1)] obtain je where je: "je < ?m" "?w je = e" by blast
  with e have Pje: "?P je" by (simp add: other_key_def)
  define j where "j = (LEAST j. ?P j)"
  have Pj: "?P j" unfolding j_def using Pje by (rule LeastI)
  have jle: "j \<le> je" unfolding j_def using Pje by (rule Least_le)
  have before: "\<forall>i<j. other_key key (array t ! ?w i)"
    using not_less_Least [of _ ?P] unfolding j_def by blast
  have wj: "?w j < ?m" using m by (simp add: walk_less)
  then have "array t ! ?w j \<in> set (array t)" by (simp add: table_size_def)
  with assms(1) have nt: "array t ! ?w j \<noteq> Tombstone" by (auto simp: wf_table_def)
  have "array t ! ?w j = Empty"
  proof (cases "array t ! ?w j")
    case (Occupied k v)
    with Pj have "k = key" by (simp add: other_key_def)
    with Occupied wj have "(key, v) \<in> entries t" by (auto simp: entries_nth)
    with assms(3) show ?thesis by force
  qed (use nt in simp_all)
  moreover from jle je(1) have "j < ?m" by simp
  ultimately show ?thesis using before by blast
qed

lemma table_size_put [simp]: "table_size (put t p key data) = table_size t"
  by (simp add: put_def table_size_def)

lemma array_put_nth:
  "i < table_size t \<Longrightarrow>
     array (put t p key data) ! i = (if i = p then Occupied key data else array t ! i)"
  by (simp add: put_def table_size_def nth_list_update)

lemma occupied_update:
  "p < length xs \<Longrightarrow> \<not> is_occupied (xs ! p) \<Longrightarrow> is_occupied x \<Longrightarrow>
     length (filter is_occupied (xs[p := x])) = Suc (length (filter is_occupied xs))"
proof (induction xs arbitrary: p)
  case Nil
  then show ?case by simp
next
  case (Cons a xs)
  then show ?case by (cases p) auto
qed

lemma entries_put:
  assumes "p < table_size t" and "array t ! p = Empty"
  shows "entries (put t p key data) = insert (key, data) (entries t)"
proof -
  have "(k, v) \<in> entries (put t p key data) \<longleftrightarrow> (k, v) \<in> insert (key, data) (entries t)"
    for k v
  proof
    assume "(k, v) \<in> entries (put t p key data)"
    then show "(k, v) \<in> insert (key, data) (entries t)"
      by (auto simp: entries_nth array_put_nth split: if_splits)
  next
    assume "(k, v) \<in> insert (key, data) (entries t)"
    then consider "(k, v) = (key, data)" | "(k, v) \<in> entries t" by blast
    then show "(k, v) \<in> entries (put t p key data)"
    proof cases
      case 1
      with assms(1) have "array (put t p key data) ! p = Occupied k v"
        by (simp add: array_put_nth)
      with assms(1) show ?thesis unfolding entries_nth by auto
    next
      case 2
      then obtain i where i: "i < table_size t" "array t ! i = Occupied k v"
        by (auto simp: entries_nth)
      with assms(2) have "i \<noteq> p" by auto
      with i have "array (put t p key data) ! i = Occupied k v"
        by (simp add: array_put_nth)
      with i(1) show ?thesis unfolding entries_nth by auto
    qed
  qed
  then show ?thesis by auto
qed

lemma other_key_put:
  assumes "array t ! p = Empty" and "other_key k (array t ! q)" and "q < table_size t"
  shows "other_key k (array (put t p key data) ! q)"
proof -
  from assms(1,2) have "q \<noteq> p" by (auto simp: other_key_def)
  with assms(2,3) show ?thesis by (simp add: array_put_nth)
qed

lemma reaches_put:
  assumes "array t ! p = Empty" and "0 < table_size t" and "reaches t k i"
  shows "reaches (put t p key data) k i"
proof -
  let ?m = "table_size t"
  let ?w = "walk ?m (home ?m k) (stride ?m k)"
  from assms(3) obtain j where j: "j < ?m" "?w j = i" "\<forall>j'<j. other_key k (array t ! ?w j')"
    by (auto simp: reaches_def)
  have "\<forall>j'<j. other_key k (array (put t p key data) ! ?w j')"
    using j(3) assms(1,2) by (simp add: other_key_put walk_less)
  with j(1,2) show ?thesis by (auto simp: reaches_def)
qed

lemma wf_put:
  assumes "wf_table t" and "j < table_size t"
    and "array t ! walk (table_size t) (home (table_size t) key) (stride (table_size t) key) j
           = Empty"
    and "\<forall>i<j. other_key key
           (array t ! walk (table_size t) (home (table_size t) key) (stride (table_size t) key) i)"
  shows "wf_table (put t (walk (table_size t) (home (table_size t) key) (stride (table_size t) key) j)
           key data)"
proof -
  let ?m = "table_size t"
  let ?w = "walk ?m (home ?m key) (stride ?m key)"
  let ?t' = "put t (?w j) key data"
  from assms(1) have m: "2 \<le> ?m" by (simp add: wf_table_def)
  then have m0: "0 < ?m" by simp
  have p: "?w j < ?m" using m0 by (rule walk_less)
  have "Tombstone \<notin> set (array ?t')"
    using assms(1) set_update_subset_insert [of "array t" "?w j" "Occupied key data"]
    by (auto simp: wf_table_def put_def)
  moreover have "count ?t' = int (occupied_slots ?t')"
    using assms(1,3) p
    by (simp add: wf_table_def put_def occupied_slots_def table_size_def occupied_update)
  moreover have "reaches ?t' k i" if i: "i < ?m" and c: "array ?t' ! i = Occupied k v" for i k v
  proof (cases "i = ?w j")
    case True
    with c i have k: "k = key" by (simp add: array_put_nth)
    have "\<forall>i<j. other_key key (array ?t' ! ?w i)"
      using assms(3,4) m0 by (simp add: other_key_put walk_less)
    with assms(2) True k show ?thesis by (auto simp: reaches_def)
  next
    case False
    with c i have "array t ! i = Occupied k v" by (simp add: array_put_nth)
    with assms(1) i have "reaches t k i" by (simp add: wf_table_def)
    with assms(3) m0 show ?thesis by (simp add: reaches_put)
  qed
  ultimately show ?thesis using assms(1) by (simp add: wf_table_def)
qed

text \<open>
  \<open>set\<close> of a key that is not in a table without tombstones: the probe returns the first
  free cell of the key's walk, the pair is written there and counted, and the load factor
  is tested.
\<close>

lemma setitem_new_key:
  assumes "wf_table t" and "count t < int (table_size t)" and "key \<notin> fst ` entries t"
  shows "\<exists>p<table_size t. array t ! p = Empty \<and> wf_table (put t p key data) \<and>
    (\<forall>fuel\<ge>table_size t. setitem fuel t key data =
       (if 3 * (count t + 1) > 2 * int (table_size t) then rehash fuel (put t p key data)
        else Some (Inr (), put t p key data)))"
proof -
  let ?m = "table_size t"
  let ?w = "walk ?m (home ?m key) (stride ?m key)"
  from assms(1) have m: "2 \<le> ?m" by (simp add: wf_table_def)
  from first_free [OF assms] obtain j where j: "j < ?m" "array t ! ?w j = Empty"
    "\<forall>i<j. other_key key (array t ! ?w i)" by blast
  have nf: "\<not> is_full t" using assms(2) by (simp add: is_full_def)
  from assms(1) have count0: "0 \<le> count t" by (simp add: wf_table_def)
  have p: "?w j < ?m" using m by (simp add: walk_less)
  have probe: "hashy_probe fuel t key True = Some (Inr (?w j), t)" if "?m \<le> fuel" for fuel
  proof -
    have "probe_loop fuel t key True (home ?m key) None None = Some (Inr (?w j), t)"
    proof (rule probe_loop_walk_insert [OF nf m])
      show "home ?m key < ?m" by (rule hash_home(2) [OF m])
      show "None = None \<or> None = Some (stride ?m key)" by simp
      show "\<forall>i<j. other_key key (array t ! ?w i)" by (rule j(3))
      show "array t ! ?w j = Empty" by (rule j(2))
      show "j < fuel" using j(1) that by simp
    qed
    then show ?thesis using hash_home(1) [OF m, of key] by (simp add: hashy_probe_def)
  qed
  have "setitem fuel t key data =
       (if 3 * (count t + 1) > 2 * int ?m then rehash fuel (put t (?w j) key data)
        else Some (Inr (), put t (?w j) key data))" if "?m \<le> fuel" for fuel
    using probe [OF that] j(2) count0
    by (simp add: put_def len_def dunder_len_def table_size_def Let_def)
  moreover have "wf_table (put t (?w j) key data)"
    by (rule wf_put [OF assms(1) j])
  ultimately show ?thesis using p j(2) by blast
qed

lemma spaced_nth: "spaced xs \<Longrightarrow> Suc i < length xs \<Longrightarrow> xs ! i + 2 \<le> xs ! Suc i"
proof (induction xs arbitrary: i rule: spaced.induct)
  case (1 a b xs)
  then show ?case by (cases i) simp_all
qed simp_all

lemma set_keys_of: "set (keys_of xs) = fst ` entries_of xs"
  by (induction xs rule: keys_of.induct) (auto simp: entries_of_def image_iff)

lemma length_keys_of: "length (keys_of xs) = length (filter is_occupied xs)"
  by (induction xs rule: keys_of.induct) simp_all

lemma entries_of_Cons:
  "entries_of (x # xs) =
     (case x of Occupied k v \<Rightarrow> insert (k, v) (entries_of xs) | _ \<Rightarrow> entries_of xs)"
  by (auto simp: entries_of_def split: slot.splits)

lemma distinct_keys_of:
  "(\<And>i j k v v'. i < j \<Longrightarrow> j < length xs \<Longrightarrow> xs ! i = Occupied k v \<Longrightarrow>
      xs ! j = Occupied k v' \<Longrightarrow> False) \<Longrightarrow> distinct (keys_of xs)"
proof (induction xs)
  case Nil
  show ?case by simp
next
  case (Cons a xs)
  have tail: "distinct (keys_of xs)"
  proof (rule Cons.IH)
    fix i j k' v' v''
    assume "i < j" "j < length xs" "xs ! i = Occupied k' v'" "xs ! j = Occupied k' v''"
    then show False using Cons.prems [of "Suc i" "Suc j" k' v' v''] by simp
  qed
  show ?case
  proof (cases a)
    case (Occupied k v)
    have "k \<notin> set (keys_of xs)"
    proof
      assume "k \<in> set (keys_of xs)"
      then obtain v' where "Occupied k v' \<in> set xs"
        by (auto simp: set_keys_of entries_of_def)
      then obtain j where "j < length xs" "xs ! j = Occupied k v'"
        by (auto simp: in_set_conv_nth)
      then show False using Cons.prems [of 0 "Suc j" k v v'] Occupied by simp
    qed
    with tail Occupied show ?thesis by simp
  qed (use tail in simp_all)
qed

lemma reaches_unique:
  assumes "reaches t k i" and "reaches t k i'" and "i < table_size t" and "i' < table_size t"
    and "array t ! i = Occupied k v" and "array t ! i' = Occupied k v'"
  shows "i = i'"
proof -
  let ?m = "table_size t"
  let ?w = "walk ?m (home ?m k) (stride ?m k)"
  from assms(1) obtain j where j: "?w j = i" "\<forall>j'<j. other_key k (array t ! ?w j')"
    by (auto simp: reaches_def)
  from assms(2) obtain j' where j': "?w j' = i'" "\<forall>j''<j'. other_key k (array t ! ?w j'')"
    by (auto simp: reaches_def)
  have "\<not> j < j'" using j(1) j'(2) assms(5) by (auto simp: other_key_def)
  moreover have "\<not> j' < j" using j'(1) j(2) assms(6) by (auto simp: other_key_def)
  ultimately have "j = j'" by simp
  with j(1) j'(1) show ?thesis by simp
qed

lemma wf_distinct_keys:
  assumes "wf_table t"
  shows "distinct (keys_of (array t))"
proof (rule distinct_keys_of)
  fix i j k v v'
  assume a: "i < j" "j < length (array t)" "array t ! i = Occupied k v"
    "array t ! j = Occupied k v'"
  then have lt: "i < table_size t" "j < table_size t" by (simp_all add: table_size_def)
  with assms a have r: "reaches t k i" "reaches t k j" by (simp_all add: wf_table_def)
  have "i = j" by (rule reaches_unique [OF r lt a(3,4)])
  with a(1) show False by simp
qed

lemma put_fields [simp]:
  "sizes (put t p key data) = sizes t"
  "size_index (put t p key data) = size_index t"
  "count (put t p key data) = count t + 1"
  by (simp_all add: put_def)

text \<open>
  The loop of \<open>_rehash\<close> over old cells, when the new array has room for all of them below
  the load factor: every pair is set without a further rehash.
\<close>

lemma rehash_loop_plain:
  "wf_table t \<Longrightarrow>
   3 * (count t + int (length (keys_of items))) \<le> 2 * int (table_size t) \<Longrightarrow>
   distinct (keys_of items) \<Longrightarrow>
   set (keys_of items) \<inter> fst ` entries t = {} \<Longrightarrow>
   \<exists>t'. (\<forall>fuel\<ge>table_size t. rehash_loop fuel items t = Some (Inr (), t')) \<and>
        wf_table t' \<and> entries t' = entries t \<union> entries_of items \<and>
        count t' = count t + int (length (keys_of items)) \<and>
        table_size t' = table_size t \<and> sizes t' = sizes t \<and>
        size_index t' = size_index t"
proof (induction items arbitrary: t)
  case Nil
  then have "(\<forall>fuel\<ge>table_size t. rehash_loop fuel [] t = Some (Inr (), t)) \<and>
        wf_table t \<and> entries t = entries t \<union> entries_of [] \<and>
        count t = count t + int (length (keys_of ([] :: 'a slot list))) \<and>
        table_size t = table_size t \<and> sizes t = sizes t \<and>
        size_index t = size_index t"
    by (simp add: entries_of_def)
  then show ?case by blast
next
  case (Cons item items)
  show ?case
  proof (cases item)
    case Empty
    with Cons.prems have "\<exists>t'. (\<forall>fuel\<ge>table_size t. rehash_loop fuel items t = Some (Inr (), t')) \<and>
        wf_table t' \<and> entries t' = entries t \<union> entries_of items \<and>
        count t' = count t + int (length (keys_of items)) \<and>
        table_size t' = table_size t \<and> sizes t' = sizes t \<and>
        size_index t' = size_index t"
      by (intro Cons.IH) simp_all
    with Empty show ?thesis by (simp add: entries_of_Cons)
  next
    case Tombstone
    with Cons.prems have "\<exists>t'. (\<forall>fuel\<ge>table_size t. rehash_loop fuel items t = Some (Inr (), t')) \<and>
        wf_table t' \<and> entries t' = entries t \<union> entries_of items \<and>
        count t' = count t + int (length (keys_of items)) \<and>
        table_size t' = table_size t \<and> sizes t' = sizes t \<and>
        size_index t' = size_index t"
      by (intro Cons.IH) simp_all
    with Tombstone show ?thesis by (simp add: entries_of_Cons)
  next
    case (Occupied k v)
    let ?m = "table_size t"
    from Cons.prems(2) Occupied have room: "3 * (count t + 1) \<le> 2 * int ?m"
      and notfull: "count t < int ?m" by simp_all
    from Cons.prems(4) Occupied have new: "k \<notin> fst ` entries t" by auto
    from setitem_new_key [OF Cons.prems(1) notfull new, of v]
    obtain p where p: "p < ?m" "array t ! p = Empty" "wf_table (put t p k v)"
      "\<forall>fuel\<ge>?m. setitem fuel t k v =
         (if 3 * (count t + 1) > 2 * int ?m then rehash fuel (put t p k v)
          else Some (Inr (), put t p k v))"
      by blast
    let ?t1 = "put t p k v"
    from p(4) room have set1: "\<forall>fuel\<ge>?m. setitem fuel t k v = Some (Inr (), ?t1)" by simp
    have e1: "entries ?t1 = insert (k, v) (entries t)" by (rule entries_put [OF p(1,2)])
    have "\<exists>t'. (\<forall>fuel\<ge>table_size ?t1. rehash_loop fuel items ?t1 = Some (Inr (), t')) \<and>
        wf_table t' \<and> entries t' = entries ?t1 \<union> entries_of items \<and>
        count t' = count ?t1 + int (length (keys_of items)) \<and>
        table_size t' = table_size ?t1 \<and> sizes t' = sizes ?t1 \<and>
        size_index t' = size_index ?t1"
    proof (rule Cons.IH [OF p(3)])
      show "3 * (count ?t1 + int (length (keys_of items))) \<le> 2 * int (table_size ?t1)"
        using Cons.prems(2) Occupied by simp
      show "distinct (keys_of items)" using Cons.prems(3) Occupied by simp
      show "set (keys_of items) \<inter> fst ` entries ?t1 = {}"
        using Cons.prems(3,4) Occupied e1 by auto
    qed
    then obtain t' where t': "\<forall>fuel\<ge>?m. rehash_loop fuel items ?t1 = Some (Inr (), t')"
      "wf_table t'" "entries t' = entries ?t1 \<union> entries_of items"
      "count t' = count ?t1 + int (length (keys_of items))"
      "table_size t' = ?m" "sizes t' = sizes t" "size_index t' = size_index t"
      by auto
    have "\<forall>fuel\<ge>?m. rehash_loop fuel (item # items) t = Some (Inr (), t')"
      using set1 t'(1) Occupied by simp
    moreover have "entries t' = entries t \<union> entries_of (item # items)"
      using t'(3) e1 Occupied by (simp add: entries_of_Cons)
    moreover have "count t' = count t + int (length (keys_of (item # items)))"
      using t'(4) Occupied by simp
    ultimately show ?thesis using t'(2,5,6,7) by blast
  qed
qed

lemma wf_table_fresh:
  assumes "2 \<le> m" and "good m"
  shows "wf_table (t\<lparr>size_index := i, array := ArrayR m, count := 0\<rparr>)"
    and "entries (t\<lparr>size_index := i, array := ArrayR m, count := 0\<rparr>) = {}"
  using assms
  by (auto simp: wf_table_def entries_def entries_of_def table_size_def ArrayR_def
      occupied_slots_def)

lemma entries_size_index [simp]: "entries (t\<lparr>size_index := i\<rparr>) = entries t"
  by (simp add: entries_def)

lemma table_size_size_index [simp]: "table_size (t\<lparr>size_index := i\<rparr>) = table_size t"
  by (simp add: table_size_def)

lemma wf_table_size_index [simp]: "wf_table (t\<lparr>size_index := i\<rparr>) = wf_table t"
  by (simp add: wf_table_def reaches_def occupied_slots_def)

lemma rehash_grow:
  assumes "wf_table t" and "Suc (size_index t) < length (sizes t)"
    and "good_ladder (sizes t)"
    and "3 * count t \<le> 2 * int (sizes t ! Suc (size_index t))"
  shows "\<exists>t'. (\<forall>fuel>sizes t ! Suc (size_index t). rehash fuel t = Some (Inr (), t')) \<and>
     wf_table t' \<and> entries t' = entries t \<and> count t' = count t \<and> sizes t' = sizes t \<and>
     size_index t' = Suc (size_index t) \<and> table_size t' = sizes t ! Suc (size_index t)"
proof -
  let ?m = "sizes t ! Suc (size_index t)"
  let ?t0 = "t\<lparr>size_index := size_index t + 1, array := ArrayR ?m, count := 0\<rparr>"
  from assms(2) have "?m \<in> set (sizes t)" by simp
  with assms(3) have m: "2 \<le> ?m" "good ?m" by (auto simp: good_ladder_def)
  have wf0: "wf_table ?t0" and e0: "entries ?t0 = {}"
    by (rule wf_table_fresh [OF m])+
  have ts0: "table_size ?t0 = ?m" by (simp add: table_size_def ArrayR_def)
  have cnt: "int (length (keys_of (array t))) = count t"
    using assms(1) by (simp add: wf_table_def occupied_slots_def length_keys_of)
  have "\<exists>t'. (\<forall>fuel\<ge>table_size ?t0. rehash_loop fuel (array t) ?t0 = Some (Inr (), t')) \<and>
        wf_table t' \<and> entries t' = entries ?t0 \<union> entries_of (array t) \<and>
        count t' = count ?t0 + int (length (keys_of (array t))) \<and>
        table_size t' = table_size ?t0 \<and> sizes t' = sizes ?t0 \<and>
        size_index t' = size_index ?t0"
  proof (rule rehash_loop_plain [OF wf0])
    show "3 * (count ?t0 + int (length (keys_of (array t)))) \<le> 2 * int (table_size ?t0)"
      using assms(4) cnt ts0 by simp
    show "distinct (keys_of (array t))" by (rule wf_distinct_keys [OF assms(1)])
    show "set (keys_of (array t)) \<inter> fst ` entries ?t0 = {}" using e0 by simp
  qed
  then obtain t' where t': "\<forall>fuel\<ge>?m. rehash_loop fuel (array t) ?t0 = Some (Inr (), t')"
    "wf_table t'" "entries t' = entries t" "count t' = count t" "table_size t' = ?m"
    "sizes t' = sizes t" "size_index t' = Suc (size_index t)"
    using e0 cnt ts0 by (auto simp: entries_def)
  have "rehash fuel t = Some (Inr (), t')" if "?m < fuel" for fuel
  proof -
    from that obtain f where f: "fuel = Suc f" "?m \<le> f" by (cases fuel) auto
    with t'(1) assms(2) show ?thesis by (simp add: Let_def)
  qed
  with t'(2-7) show ?thesis by blast
qed

text \<open>
  \<open>set\<close> of a new key on a table without tombstones whose ladder is linked to it: the
  call returns, the pair is in the table afterwards, and \<open>IndexError\<close> is raised only
  when the ladder had been exhausted before.
\<close>

lemma setitem_new_key_linked:
  assumes "wf_table t" and "linked t" and "count t < int (table_size t)"
    and "key \<notin> fst ` entries t"
  shows "\<exists>r t' N. (\<forall>fuel\<ge>N. setitem fuel t key data = Some (r, t')) \<and>
     wf_table t' \<and> linked t' \<and> entries t' = insert (key, data) (entries t) \<and>
     count t' = count t + 1 \<and> sizes t' = sizes t \<and> table_size t \<le> table_size t' \<and>
     (r = Inr () \<or> r = Inl IndexError \<and> length (sizes t) \<le> size_index t)"
proof -
  let ?m = "table_size t"
  from setitem_new_key [OF assms(1,3,4), of data]
  obtain p where p: "p < ?m" "array t ! p = Empty" "wf_table (put t p key data)"
    "\<forall>fuel\<ge>?m. setitem fuel t key data =
       (if 3 * (count t + 1) > 2 * int ?m then rehash fuel (put t p key data)
        else Some (Inr (), put t p key data))"
    by blast
  let ?t3 = "put t p key data"
  have e3: "entries ?t3 = insert (key, data) (entries t)" by (rule entries_put [OF p(1,2)])
  from assms(2) have ladder: "good_ladder (sizes t)"
    and size: "size_index t < length (sizes t) \<longrightarrow> ?m = sizes t ! size_index t"
    and load: "3 * count t \<le> 2 * int ?m \<or> length (sizes t) \<le> size_index t"
    and spent: "length (sizes t) \<le> size_index t \<longrightarrow>
         ?m = last (sizes t) \<and> 2 * int (last (sizes t)) < 3 * count t"
    by (simp_all add: linked_def)
  show ?thesis
  proof (cases "3 * (count t + 1) > 2 * int ?m")
    case False
    with p(4) have "\<forall>fuel\<ge>?m. setitem fuel t key data = Some (Inr (), ?t3)" by simp
    moreover have "linked ?t3"
      using ladder size spent False by (auto simp: linked_def)
    ultimately show ?thesis using p(3) e3 by (intro exI [of _ "Inr ()"] exI [of _ ?t3] exI [of _ ?m]) simp
  next
    case True
    with p(4) have set3: "\<forall>fuel\<ge>?m. setitem fuel t key data = rehash fuel ?t3" by simp
    consider (grow) "Suc (size_index t) < length (sizes t)"
      | (final) "Suc (size_index t) = length (sizes t)"
      | (spent) "length (sizes t) \<le> size_index t"
      by linarith
    then show ?thesis
    proof cases
      case grow
      let ?m' = "sizes t ! Suc (size_index t)"
      from grow size load have m: "?m = sizes t ! size_index t" "3 * count t \<le> 2 * int ?m"
        by simp_all
      from ladder have "spaced (sizes t)" by (simp add: good_ladder_def)
      from spaced_nth [OF this grow] have step: "sizes t ! size_index t + 2 \<le> ?m'" .
      have room: "3 * count ?t3 \<le> 2 * int ?m'" using m step by simp
      have "\<exists>t'. (\<forall>fuel>sizes ?t3 ! Suc (size_index ?t3). rehash fuel ?t3 = Some (Inr (), t')) \<and>
         wf_table t' \<and> entries t' = entries ?t3 \<and> count t' = count ?t3 \<and>
         sizes t' = sizes ?t3 \<and> size_index t' = Suc (size_index ?t3) \<and>
         table_size t' = sizes ?t3 ! Suc (size_index ?t3)"
        by (rule rehash_grow [OF p(3)]) (use grow ladder room in simp_all)
      then obtain t' where t': "\<forall>fuel>?m'. rehash fuel ?t3 = Some (Inr (), t')"
        "wf_table t'" "entries t' = entries ?t3" "count t' = count t + 1"
        "sizes t' = sizes t" "size_index t' = Suc (size_index t)" "table_size t' = ?m'"
        by auto
      have "\<forall>fuel\<ge>Suc ?m'. setitem fuel t key data = Some (Inr (), t')"
        using set3 t'(1) m(1) step by simp
      moreover have "linked t'"
        using ladder grow room t'(4-7) by (simp add: linked_def)
      moreover have "?m \<le> table_size t'" using m(1) step t'(7) by simp
      ultimately show ?thesis using t'(2-5) e3
        by (intro exI [of _ "Inr ()"] exI [of _ t'] exI [of _ "Suc ?m'"]) simp
    next
      case final
      let ?t' = "?t3\<lparr>size_index := size_index ?t3 + 1\<rparr>"
      have "rehash fuel ?t3 = Some (Inr (), ?t')" if "?m < fuel" for fuel
      proof -
        from that obtain f where "fuel = Suc f" by (cases fuel) auto
        with final show ?thesis by (simp add: Let_def)
      qed
      with set3 have "\<forall>fuel\<ge>Suc ?m. setitem fuel t key data = Some (Inr (), ?t')" by simp
      moreover from final size have "?m = last (sizes t)"
        by (cases "sizes t" rule: rev_cases) (auto simp: nth_append)
      with True final ladder have "linked ?t'" by (simp add: linked_def)
      ultimately show ?thesis using p(3) e3
        by (intro exI [of _ "Inr ()"] exI [of _ ?t'] exI [of _ "Suc ?m"]) simp
    next
      case spent
      let ?t' = "?t3\<lparr>size_index := size_index ?t3 + 1\<rparr>"
      have "rehash fuel ?t3 = Some (Inl IndexError, ?t')" if "?m < fuel" for fuel
      proof -
        from that obtain f where "fuel = Suc f" by (cases fuel) auto
        with spent show ?thesis by (simp add: Let_def)
      qed
      with set3 have "\<forall>fuel\<ge>Suc ?m. setitem fuel t key data = Some (Inl IndexError, ?t')"
        by simp
      moreover from spent \<open>length (sizes t) \<le> size_index t \<longrightarrow>
         ?m = last (sizes t) \<and> 2 * int (last (sizes t)) < 3 * count t\<close>
      have "linked ?t'" using ladder by (simp add: linked_def)
      ultimately show ?thesis using p(3) e3 spent
        by (intro exI [of _ "Inl IndexError"] exI [of _ ?t'] exI [of _ "Suc ?m"]) simp
    qed
  qed
qed

subsection \<open>The default ladder\<close>

lemma trial_numeral:
  "trial m d (numeral k) = (m mod d \<noteq> 0 \<and> trial m (Suc d) (pred_numeral k))"
  by (simp add: numeral_eq_Suc)

lemma trial_no_divisor: "trial m d n \<Longrightarrow> d \<le> x \<Longrightarrow> x < d + n \<Longrightarrow> \<not> x dvd m"
proof (induction n arbitrary: d)
  case 0
  then show ?case by simp
next
  case (Suc n)
  show ?case
  proof (cases "x = d")
    case True
    with Suc.prems(1) show ?thesis by (simp add: dvd_eq_mod_eq_0)
  next
    case False
    with Suc.prems have "trial m (Suc d) n" "Suc d \<le> x" "x < Suc d + n" by simp_all
    then show ?thesis by (rule Suc.IH)
  qed
qed

lemma good_by_trial:
  assumes "2 \<le> m" and "m < (2 + n) * (2 + n)" and "trial m 2 n"
  shows "good m"
  unfolding good_def
proof (intro allI impI)
  fix s assume s: "1 \<le> s \<and> s < m"
  show "coprime s m"
  proof (rule coprimeI)
    fix c assume c: "c dvd s" "c dvd m"
    have small: "\<not> x dvd m" if "2 \<le> x" "x < 2 + n" for x
      using trial_no_divisor [OF assms(3) that] .
    from c(1) s have "c \<le> s" by (simp add: dvd_imp_le)
    with s have cm: "c < m" by simp
    have c0: "c \<noteq> 0"
    proof
      assume "c = 0"
      with c(2) have "m = 0" by simp
      with assms(1) show False by simp
    qed
    have "c = 1"
    proof (rule ccontr)
      assume "c \<noteq> 1"
      with c0 have c2: "2 \<le> c" by simp
      from c(2) obtain e where e: "m = c * e" by (auto simp: dvd_def)
      have e2: "2 \<le> e"
      proof (rule ccontr)
        assume "\<not> 2 \<le> e"
        then consider "e = 0" | "e = 1" by linarith
        then show False
        proof cases
          case 1
          with e assms(1) show ?thesis by simp
        next
          case 2
          with e cm show ?thesis by simp
        qed
      qed
      have "e dvd m" using e by simp
      show False
      proof (cases "c < 2 + n")
        case True
        with small [OF c2] c(2) show ?thesis by simp
      next
        case False
        have "e < 2 + n"
        proof (rule ccontr)
          assume "\<not> e < 2 + n"
          with False have "2 + n \<le> c" "2 + n \<le> e" by simp_all
          then have "(2 + n) * (2 + n) \<le> c * e" by (rule mult_le_mono)
          with e assms(2) show False by simp
        qed
        with small [OF e2] \<open>e dvd m\<close> show ?thesis by simp
      qed
    qed
    then show "is_unit c" by simp
  qed
qed

lemma good_5: "good 5"
  by (rule good_by_trial [where n = 1]) (simp_all add: trial_numeral)

lemma good_13: "good 13"
  by (rule good_by_trial [where n = 2]) (simp_all add: trial_numeral)

lemma good_29: "good 29"
  by (rule good_by_trial [where n = 4]) (simp_all add: trial_numeral)

lemma good_53: "good 53"
  by (rule good_by_trial [where n = 6]) (simp_all add: trial_numeral)

lemma good_97: "good 97"
  by (rule good_by_trial [where n = 8]) (simp_all add: trial_numeral)

lemma good_193: "good 193"
  by (rule good_by_trial [where n = 12]) (simp_all add: trial_numeral)

lemma good_389: "good 389"
  by (rule good_by_trial [where n = 18]) (simp_all add: trial_numeral)

lemma good_769: "good 769"
  by (rule good_by_trial [where n = 26]) (simp_all add: trial_numeral)

lemma good_1543: "good 1543"
  by (rule good_by_trial [where n = 38]) (simp_all add: trial_numeral)

lemma good_3079: "good 3079"
  by (rule good_by_trial [where n = 54]) (simp_all add: trial_numeral)

lemma good_6151: "good 6151"
  by (rule good_by_trial [where n = 77]) (simp_all add: trial_numeral)

lemma good_12289: "good 12289"
  by (rule good_by_trial [where n = 109]) (simp_all add: trial_numeral)

lemma good_24593: "good 24593"
  by (rule good_by_trial [where n = 155]) (simp_all add: trial_numeral)

lemma good_49157: "good 49157"
  by (rule good_by_trial [where n = 220]) (simp_all add: trial_numeral)

lemma good_98317: "good 98317"
  by (rule good_by_trial [where n = 312]) (simp_all add: trial_numeral)

lemma good_196613: "good 196613"
  by (rule good_by_trial [where n = 442]) (simp_all add: trial_numeral)

lemma good_393241: "good 393241"
  by (rule good_by_trial [where n = 626]) (simp_all add: trial_numeral)

lemma good_786433: "good 786433"
  by (rule good_by_trial [where n = 885]) (simp_all add: trial_numeral)

lemma good_1572869: "good 1572869"
  by (rule good_by_trial [where n = 1253]) (simp_all add: trial_numeral)

lemma good_ladder_TABLE_SIZES: "good_ladder TABLE_SIZES"
  by (simp add: good_ladder_def TABLE_SIZES_def
      good_5 good_13 good_29 good_53 good_97 good_193
      good_389 good_769 good_1543 good_3079 good_6151 good_12289
      good_24593 good_49157 good_98317 good_196613 good_393241 good_786433
      good_1572869)

subsection \<open>Setting distinct keys one after another\<close>

lemma setitem_full:
  assumes "wf_table t" and "is_full t"
  shows "setitem (Suc fuel) t key data = Some (Inl FullError, t)"
proof -
  from assms(1) have "2 \<le> table_size t" by (simp add: wf_table_def)
  from hash_home(1) [OF this, of key] assms(2) show ?thesis
    by (simp add: hashy_probe_def)
qed

lemma wf_count_le:
  assumes "wf_table t"
  shows "count t \<le> int (table_size t)"
  using assms by (simp add: wf_table_def occupied_slots_def table_size_def)

lemma set_step:
  assumes "settled t seen \<or> stuck t (length seen)" and "k \<notin> fst ` set seen"
  shows "\<exists>N r t1. (\<forall>fuel\<ge>N. apply_op fuel t (Set k v) = Some (r, t1)) \<and>
     (settled t1 (seen @ [(k, v)]) \<or> stuck t1 (Suc (length seen)))"
proof -
  consider (room) "settled t seen" "count t < int (table_size t)"
    | (full) "wf_table t" "is_full t" "table_size t \<le> Suc (length seen)"
  proof -
    from assms(1) show ?thesis
    proof
      assume s: "settled t seen"
      then have wf: "wf_table t" and c: "count t = int (length seen)"
        by (simp_all add: settled_def)
      show ?thesis
      proof (cases "count t < int (table_size t)")
        case True
        with s show ?thesis by (rule room)
      next
        case False
        with wf_count_le [OF wf] have "count t = int (table_size t)" by simp
        with wf c show ?thesis by (intro full) (simp_all add: is_full_def)
      qed
    next
      assume "stuck t (length seen)"
      then show ?thesis by (intro full) (simp_all add: stuck_def)
    qed
  qed
  then show ?thesis
  proof cases
    case room
    then have wf: "wf_table t" and l: "linked t" and e: "entries t = set seen"
      and c: "count t = int (length seen)" by (simp_all add: settled_def)
    from assms(2) e have new: "k \<notin> fst ` entries t" by simp
    from setitem_new_key_linked [OF wf l room(2) new, of v]
    obtain r t' N where r: "\<forall>fuel\<ge>N. setitem fuel t k v = Some (r, t')"
      "wf_table t'" "linked t'" "entries t' = insert (k, v) (entries t)"
      "count t' = count t + 1" by blast
    obtain r' where r': "\<forall>fuel\<ge>N. apply_op fuel t (Set k v) = Some (r', t')"
      using r(1) by (cases r) (auto simp: reply_of_def)
    moreover have "settled t' (seen @ [(k, v)])"
      using r(2-5) e c by (simp add: settled_def)
    ultimately show ?thesis by blast
  next
    case full
    have "\<forall>fuel\<ge>1. apply_op fuel t (Set k v) = Some (Inl FullError, t)"
    proof (intro allI impI)
      fix fuel :: nat assume "1 \<le> fuel"
      then obtain f where "fuel = Suc f" by (cases fuel) auto
      with setitem_full [OF full(1,2), of f k v]
      show "apply_op fuel t (Set k v) = Some (Inl FullError, t)"
        by (simp add: reply_of_def)
    qed
    moreover have "stuck t (Suc (length seen))" using full by (simp add: stuck_def)
    ultimately show ?thesis by blast
  qed
qed

lemma run_sets:
  "settled t seen \<or> stuck t (length seen) \<Longrightarrow> distinct (map fst (seen @ kvs)) \<Longrightarrow>
   \<exists>N rs t'. (\<forall>fuel\<ge>N. run fuel t (sets kvs) = Some (rs, t')) \<and>
     (settled t' (seen @ kvs) \<or> stuck t' (length (seen @ kvs)))"
proof (induction kvs arbitrary: t seen)
  case Nil
  then show ?case by (auto simp: sets_def)
next
  case (Cons kv kvs)
  obtain k v where kv: "kv = (k, v)" by (cases kv)
  from Cons.prems(2) kv have new: "k \<notin> fst ` set seen" by auto
  from set_step [OF Cons.prems(1) new, of v]
  obtain N1 r t1 where s1: "\<forall>fuel\<ge>N1. apply_op fuel t (Set k v) = Some (r, t1)"
    "settled t1 (seen @ [(k, v)]) \<or> stuck t1 (length (seen @ [(k, v)]))"
    by auto
  have "\<exists>N rs t'. (\<forall>fuel\<ge>N. run fuel t1 (sets kvs) = Some (rs, t')) \<and>
     (settled t' ((seen @ [(k, v)]) @ kvs) \<or> stuck t' (length ((seen @ [(k, v)]) @ kvs)))"
    by (rule Cons.IH [OF s1(2)]) (use Cons.prems(2) kv in simp)
  then obtain N2 rs t' where s2: "\<forall>fuel\<ge>N2. run fuel t1 (sets kvs) = Some (rs, t')"
    "settled t' (seen @ kv # kvs) \<or> stuck t' (length (seen @ kv # kvs))"
    using kv by auto
  have "\<forall>fuel\<ge>max N1 N2. run fuel t (sets (kv # kvs)) = Some (r # rs, t')"
    using s1(1) s2(1) kv by (simp add: sets_def)
  with s2(2) show ?case by blast
qed

lemma set_step_done:
  assumes "settled t seen" and "k \<notin> fst ` set seen"
    and "3 * int (length seen) \<le> 2 * int (last (sizes t))"
  shows "\<exists>N t1. (\<forall>fuel\<ge>N. apply_op fuel t (Set k v) = Some (Inr Done, t1)) \<and>
     settled t1 (seen @ [(k, v)]) \<and> sizes t1 = sizes t"
proof -
  from assms(1) have wf: "wf_table t" and l: "linked t" and e: "entries t = set seen"
    and c: "count t = int (length seen)" by (simp_all add: settled_def)
  from l c assms(3) have live: "\<not> length (sizes t) \<le> size_index t"
    by (auto simp: linked_def)
  with l have "3 * count t \<le> 2 * int (table_size t)" by (auto simp: linked_def)
  moreover from wf have "2 \<le> table_size t" by (simp add: wf_table_def)
  ultimately have room: "count t < int (table_size t)" by simp
  from assms(2) e have new: "k \<notin> fst ` entries t" by simp
  from setitem_new_key_linked [OF wf l room new, of v] live
  obtain t' N where r: "\<forall>fuel\<ge>N. setitem fuel t k v = Some (Inr (), t')"
    "wf_table t'" "linked t'" "entries t' = insert (k, v) (entries t)"
    "count t' = count t + 1" "sizes t' = sizes t" by blast
  have "\<forall>fuel\<ge>N. apply_op fuel t (Set k v) = Some (Inr Done, t')"
    using r(1) by (simp add: reply_of_def)
  moreover have "settled t' (seen @ [(k, v)])"
    using r(2-5) e c by (simp add: settled_def)
  ultimately show ?thesis using r(6) by blast
qed

lemma run_sets_done:
  "settled t seen \<Longrightarrow> distinct (map fst (seen @ kvs)) \<Longrightarrow>
   3 * int (length (seen @ kvs)) \<le> 2 * int (last (sizes t)) + 3 \<Longrightarrow>
   \<exists>N t'. (\<forall>fuel\<ge>N. run fuel t (sets kvs) = Some (replicate (length kvs) (Inr Done), t')) \<and>
     settled t' (seen @ kvs) \<and> sizes t' = sizes t"
proof (induction kvs arbitrary: t seen)
  case Nil
  then show ?case by (auto simp: sets_def)
next
  case (Cons kv kvs)
  obtain k v where kv: "kv = (k, v)" by (cases kv)
  from Cons.prems(2) kv have new: "k \<notin> fst ` set seen" by auto
  from Cons.prems(3) have "3 * int (length seen) \<le> 2 * int (last (sizes t))" by simp
  from set_step_done [OF Cons.prems(1) new this, of v]
  obtain N1 t1 where s1: "\<forall>fuel\<ge>N1. apply_op fuel t (Set k v) = Some (Inr Done, t1)"
    "settled t1 (seen @ [(k, v)])" "sizes t1 = sizes t"
    by auto
  have "\<exists>N t'. (\<forall>fuel\<ge>N. run fuel t1 (sets kvs)
          = Some (replicate (length kvs) (Inr Done), t')) \<and>
     settled t' ((seen @ [(k, v)]) @ kvs) \<and> sizes t' = sizes t1"
    by (rule Cons.IH [OF s1(2)]) (use Cons.prems(2,3) kv s1(3) in simp_all)
  then obtain N2 t' where s2:
    "\<forall>fuel\<ge>N2. run fuel t1 (sets kvs) = Some (replicate (length kvs) (Inr Done), t')"
    "settled t' (seen @ kv # kvs)" "sizes t' = sizes t"
    using kv s1(3) by auto
  have "\<forall>fuel\<ge>max N1 N2. run fuel t (sets (kv # kvs))
      = Some (replicate (length (kv # kvs)) (Inr Done), t')"
    using s1(1) s2(1) kv by (simp add: sets_def)
  with s2(2,3) show ?case by blast
qed

lemma settled_get:
  assumes "settled t kvs" and "length kvs < table_size t" and "(k, v) \<in> set kvs"
    and "table_size t \<le> fuel"
  shows "getitem fuel t k = Some (Inr v, t)"
proof -
  from assms(1) have wf: "wf_table t" and e: "entries t = set kvs"
    and c: "count t = int (length kvs)" by (simp_all add: settled_def)
  from c assms(2) have "\<not> is_full t" by (simp add: is_full_def)
  with wf show ?thesis using assms(3,4) e by (intro getitem_found) simp_all
qed

lemma round_trip_from:
  assumes "settled t0 []" and "distinct (map fst kvs)"
  shows "\<exists>N rs t.
    (\<forall>fuel\<ge>N. run fuel t0 (sets kvs) = Some (rs, t) \<and>
       (length kvs < table_size t \<longrightarrow>
          (\<forall>(k, v)\<in>set kvs. getitem fuel t k = Some (Inr v, t)))) \<and>
    (3 * int (length kvs) \<le> 2 * int (last (sizes t0)) + 3 \<longrightarrow>
       rs = replicate (length kvs) (Inr Done) \<and> settled t kvs \<and> sizes t = sizes t0)"
proof -
  have s0: "settled t0 [] \<or> stuck t0 (length ([] :: (key \<times> 'a) list))"
    using assms(1) by (rule disjI1)
  from run_sets [OF s0, of kvs] assms(2)
  obtain N1 rs t where run: "\<forall>fuel\<ge>N1. run fuel t0 (sets kvs) = Some (rs, t)"
    and st: "settled t kvs \<or> stuck t (length kvs)" by auto
  let ?N = "max N1 (table_size t)"
  have get: "getitem fuel t k = Some (Inr v, t)"
    if "?N \<le> fuel" "length kvs < table_size t" "(k, v) \<in> set kvs" for fuel k v
  proof -
    from st that(2) have "settled t kvs" by (auto simp: stuck_def)
    then show ?thesis using that by (intro settled_get) simp_all
  qed
  have small: "rs = replicate (length kvs) (Inr Done) \<and> settled t kvs \<and> sizes t = sizes t0"
    if n: "3 * int (length kvs) \<le> 2 * int (last (sizes t0)) + 3"
  proof -
    have "\<exists>N t'. (\<forall>fuel\<ge>N. run fuel t0 (sets kvs)
          = Some (replicate (length kvs) (Inr Done), t')) \<and>
       settled t' ([] @ kvs) \<and> sizes t' = sizes t0"
      by (rule run_sets_done [OF assms(1)]) (use assms(2) n in simp_all)
    then obtain N2 t' where d:
      "\<forall>fuel\<ge>N2. run fuel t0 (sets kvs) = Some (replicate (length kvs) (Inr Done), t')"
      "settled t' kvs" "sizes t' = sizes t0" by auto
    from run d(1) have "Some (rs, t) = Some (replicate (length kvs) (Inr Done), t')"
      by (metis max.cobounded1 max.cobounded2)
    with d(2,3) show ?thesis by simp
  qed
  have "\<forall>fuel\<ge>?N. run fuel t0 (sets kvs) = Some (rs, t) \<and>
       (length kvs < table_size t \<longrightarrow>
          (\<forall>(k, v)\<in>set kvs. getitem fuel t k = Some (Inr v, t)))"
    using run get by auto
  with small show ?thesis by blast
qed

lemma settled_room:
  assumes "settled t kvs" and "3 * int (length kvs) \<le> 2 * int (last (sizes t)) + 3"
    and "3 < last (sizes t)"
  shows "length kvs < table_size t"
proof -
  from assms(1) have wf: "wf_table t" and lk: "linked t" and c: "count t = int (length kvs)"
    by (simp_all add: settled_def)
  show ?thesis
  proof (cases "length (sizes t) \<le> size_index t")
    case True
    with lk have "table_size t = last (sizes t)" by (simp add: linked_def)
    with assms(2,3) show ?thesis by simp
  next
    case False
    with lk have "3 * count t \<le> 2 * int (table_size t)" by (auto simp: linked_def)
    moreover from wf have "2 \<le> table_size t" by (simp add: wf_table_def)
    ultimately show ?thesis using c by simp
  qed
qed

lemma settled_init:
  assumes "good_ladder szs" and "szs \<noteq> []"
  shows "settled (\<lparr>sizes = szs, size_index = 0, array = ArrayR (szs ! 0), count = 0\<rparr>
           :: 'v table) []"
proof -
  let ?t = "\<lparr>sizes = szs, size_index = 0, array = ArrayR (szs ! 0), count = 0\<rparr> :: 'v table"
  from assms have "szs ! 0 \<in> set szs" by simp
  with assms(1) have m: "2 \<le> szs ! 0" "good (szs ! 0)" by (auto simp: good_ladder_def)
  then have "wf_table ?t" and "entries ?t = {}"
    by (auto simp: wf_table_def entries_def entries_of_def table_size_def ArrayR_def
        occupied_slots_def)
  moreover have "linked ?t"
    using assms by (simp add: linked_def table_size_def ArrayR_def)
  ultimately show ?thesis by (simp add: settled_def)
qed

text \<open>The round trip on every ladder of primes that grow by at least two.\<close>

lemma round_trip_ladder:
  assumes "good_ladder szs" and "szs \<noteq> []" and "distinct (map fst kvs)"
  shows "\<exists>N rs t.
    (\<forall>fuel\<ge>N. script fuel (Some szs) (sets kvs) = Some (rs, t) \<and>
       (length kvs < table_size t \<longrightarrow>
          (\<forall>(k, v)\<in>set kvs. getitem fuel t k = Some (Inr v, t)))) \<and>
    (3 * int (length kvs) \<le> 2 * int (last szs) + 3 \<longrightarrow>
       rs = replicate (length kvs) (Inr Done))"
proof -
  let ?t0 = "\<lparr>sizes = szs, size_index = 0, array = ArrayR (szs ! 0), count = 0\<rparr> :: 'a table"
  have init: "init (Some szs) = Inr ?t0" using assms(2) by (simp add: init_def)
  from round_trip_from [OF settled_init [OF assms(1,2)] assms(3)]
  obtain N rs t where r:
    "\<forall>fuel\<ge>N. run fuel ?t0 (sets kvs) = Some (rs, t) \<and>
       (length kvs < table_size t \<longrightarrow>
          (\<forall>(k, v)\<in>set kvs. getitem fuel t k = Some (Inr v, t)))"
    "3 * int (length kvs) \<le> 2 * int (last (sizes ?t0)) + 3 \<longrightarrow>
       rs = replicate (length kvs) (Inr Done) \<and> settled t kvs \<and> sizes t = sizes ?t0"
    by blast
  from r(1) have "\<forall>fuel\<ge>N. script fuel (Some szs) (sets kvs) = Some (rs, t) \<and>
       (length kvs < table_size t \<longrightarrow>
          (\<forall>(k, v)\<in>set kvs. getitem fuel t k = Some (Inr v, t)))"
    by (simp add: script_def init)
  moreover from r(2) have "3 * int (length kvs) \<le> 2 * int (last szs) + 3 \<longrightarrow>
       rs = replicate (length kvs) (Inr Done)" by simp
  ultimately show ?thesis by blast
qed

text \<open>
  The round trip on the default ladder. Setting pairs with pairwise distinct keys on a newly
  constructed table always returns (for every sufficiently large fuel, with the same
  result); when the number \<open>n\<close> of pairs is below the capacity the table then has, every
  \<open>get(ki)\<close> returns \<open>vi\<close> and leaves the table as it is. Up to \<open>n = 1048580\<close> every
  \<open>set\<close> returns without an exception and \<open>n\<close> is below the capacity; beyond that the
  ladder is exhausted and \<open>set\<close> raises \<open>IndexError\<close> after it has stored its pair.
\<close>

lemma round_trip_default_ladder:
  assumes "distinct (map fst kvs)"
  shows "\<exists>N rs t.
    (\<forall>fuel\<ge>N. script fuel None (sets kvs) = Some (rs, t) \<and>
       (length kvs < table_size t \<longrightarrow>
          (\<forall>(k, v)\<in>set kvs. getitem fuel t k = Some (Inr v, t)))) \<and>
    (length kvs \<le> 1048580 \<longrightarrow>
       rs = replicate (length kvs) (Inr Done) \<and> length kvs < table_size t)"
proof -
  let ?t0 = "\<lparr>sizes = TABLE_SIZES, size_index = 0, array = ArrayR (TABLE_SIZES ! 0), count = 0\<rparr>
    :: 'a table"
  have init: "init None = Inr ?t0" by (simp add: init_def TABLE_SIZES_def)
  have l: "last TABLE_SIZES = 1572869" by (simp add: TABLE_SIZES_def)
  have ne: "TABLE_SIZES \<noteq> []" by (simp add: TABLE_SIZES_def)
  from round_trip_from [OF settled_init [OF good_ladder_TABLE_SIZES ne] assms]
  obtain N rs t where r:
    "\<forall>fuel\<ge>N. run fuel ?t0 (sets kvs) = Some (rs, t) \<and>
       (length kvs < table_size t \<longrightarrow>
          (\<forall>(k, v)\<in>set kvs. getitem fuel t k = Some (Inr v, t)))"
    "3 * int (length kvs) \<le> 2 * int (last (sizes ?t0)) + 3 \<longrightarrow>
       rs = replicate (length kvs) (Inr Done) \<and> settled t kvs \<and> sizes t = sizes ?t0"
    by blast
  from r(1) have a: "\<forall>fuel\<ge>N. script fuel None (sets kvs) = Some (rs, t) \<and>
       (length kvs < table_size t \<longrightarrow>
          (\<forall>(k, v)\<in>set kvs. getitem fuel t k = Some (Inr v, t)))"
    by (simp add: script_def init)
  have b: "rs = replicate (length kvs) (Inr Done) \<and> length kvs < table_size t"
    if n: "length kvs \<le> 1048580"
  proof -
    from n l have small: "3 * int (length kvs) \<le> 2 * int (last (sizes ?t0)) + 3" by simp
    with r(2) have d: "rs = replicate (length kvs) (Inr Done)" "settled t kvs"
      "sizes t = TABLE_SIZES" by simp_all
    from small d(3) l have "length kvs < table_size t"
      by (intro settled_room [OF d(2)]) simp_all
    with d(1) show ?thesis by simp
  qed
  from a b show ?thesis by blast
qed

end
